theory Spec2Isabelle
  imports Main "HOL-Library.AList"
begin

section \<open>Values, objects and errors\<close>

text \<open>
  JavaScript values as far as the three modules look at them. Objects and functions are
  references: \<open>VObj a\<close> is the object stored at address \<open>a\<close> of the object store and
  \<open>VFun f\<close> is the function with identity \<open>f\<close> (\<open>VUnsub i\<close> is the \<open>unsubscribe\<close>
  function that the \<open>i\<close>-th call of \<open>subscribe\<close> returned); the operator \<open>!==\<close> of the source is
  therefore inequality of values (numbers are integers here, so \<open>NaN\<close> does not occur).
\<close>

datatype val =
    VUndef
  | VNull
  | VBool bool
  | VNum int
  | VStr string
  | VObj nat
  | VFun nat
  | VUnsub nat

text \<open>
  An object of the store: \<open>plain\<close> is what lodash's \<open>isPlainObject\<close> answers for it,
  \<open>tag\<close> is the class name that \<open>Object.prototype.toString\<close> prints, and \<open>props\<close> are
  its own enumerable properties in the order of \<open>Object.keys\<close>. Inherited properties are
  not modelled: a key is read from \<open>props\<close> only.
\<close>

record obj =
  plain :: bool
  tag :: string
  props :: "(string \<times> val) list"

type_synonym heap = "obj list"

definition literal :: "(string \<times> val) list \<Rightarrow> obj" where
  "literal ps = \<lparr>plain = True, tag = ''Object'', props = ps\<rparr>"

definition alloc :: "heap \<Rightarrow> obj \<Rightarrow> val \<times> heap" where
  "alloc h ob = (VObj (length h), h @ [ob])"

text \<open>
  Every \<open>throw\<close> of the source is one constructor, carrying what the message interpolates.
  \<open>Thrown v\<close> is a value thrown by a callback of the caller.
\<close>

datatype error =
    ReducerUndefinedInit string
  | ReducerUndefinedProbe string
  | ReducerUndefinedState string val
  | EnhancerNotFunction
  | ReducerNotFunction
  | ListenerNotFunction
  | NextReducerNotFunction
  | ActionNotPlain
  | ActionTypeUndefined
  | GetStateWhileDispatching
  | SubscribeWhileDispatching
  | UnsubscribeWhileDispatching
  | DispatchWhileDispatching
  | TypeError
  | Thrown val

text \<open>The taxonomy of the specification, section 7, over the errors the library creates.\<close>

datatype kind = ConfigurationError | ValidationError | InvalidOperationError | Foreign

fun kind_of :: "error \<Rightarrow> kind" where
  "kind_of (ReducerUndefinedInit k) = ConfigurationError"
| "kind_of (ReducerUndefinedProbe k) = ConfigurationError"
| "kind_of (ReducerUndefinedState k t) = ConfigurationError"
| "kind_of EnhancerNotFunction = ConfigurationError"
| "kind_of ReducerNotFunction = ConfigurationError"
| "kind_of ListenerNotFunction = ConfigurationError"
| "kind_of NextReducerNotFunction = ConfigurationError"
| "kind_of ActionNotPlain = ValidationError"
| "kind_of ActionTypeUndefined = ValidationError"
| "kind_of GetStateWhileDispatching = InvalidOperationError"
| "kind_of SubscribeWhileDispatching = InvalidOperationError"
| "kind_of UnsubscribeWhileDispatching = InvalidOperationError"
| "kind_of DispatchWhileDispatching = InvalidOperationError"
| "kind_of TypeError = Foreign"
| "kind_of (Thrown v) = Foreign"

text \<open>Truthiness, as \<open>if (x)\<close> and \<open>x && y\<close> test it.\<close>

fun truthy :: "val \<Rightarrow> bool" where
  "truthy VUndef = False"
| "truthy VNull = False"
| "truthy (VBool b) = b"
| "truthy (VNum n) = (n \<noteq> 0)"
| "truthy (VStr s) = (s \<noteq> [])"
| "truthy (VObj a) = True"
| "truthy (VFun f) = True"
| "truthy (VUnsub i) = True"

text \<open>\<open>typeof v === 'function'\<close>\<close>

fun is_function :: "val \<Rightarrow> bool" where
  "is_function (VFun f) = True"
| "is_function (VUnsub i) = True"
| "is_function v = False"

text \<open>
  The read of a property where nothing is inherited: a \<open>TypeError\<close> on \<open>undefined\<close> and
  \<open>null\<close>, the own property of an object, and \<open>undefined\<close> where there is none. The store
  reads \<open>action.type\<close> of a plain object with it (\<open>Object.prototype\<close> has no property
  \<open>type\<close>), and the bodies of callbacks read own properties with it.
\<close>

fun get_prop :: "heap \<Rightarrow> val \<Rightarrow> string \<Rightarrow> error + val" where
  "get_prop h VUndef k = Inl TypeError"
| "get_prop h VNull k = Inl TypeError"
| "get_prop h (VObj a) k =
     (if a < length h
      then (case map_of (props (h ! a)) k of None \<Rightarrow> Inr VUndef | Some v \<Rightarrow> Inr v)
      else Inr VUndef)"
| "get_prop h v k = Inr VUndef"

text \<open>
  \<open>x[key]\<close> in general. A property that is not an own property of a stored object comes
  from the prototype chain of the object, or is built into a primitive or a function (the
  indices and the \<open>length\<close> of a string, \<open>constructor\<close>, \<open>toString\<close>). What the engine
  answers there is a parameter of the model, \<open>rt h v key\<close>, \<open>undefined\<close> where there is no
  such property; every theorem holds for every such answer.
\<close>

type_synonym runtime = "heap \<Rightarrow> val \<Rightarrow> string \<Rightarrow> val"

fun own_prop :: "heap \<Rightarrow> val \<Rightarrow> string \<Rightarrow> val option" where
  "own_prop h (VObj a) k = (if a < length h then map_of (props (h ! a)) k else None)"
| "own_prop h v k = None"

fun read_prop :: "runtime \<Rightarrow> heap \<Rightarrow> val \<Rightarrow> string \<Rightarrow> error + val" where
  "read_prop rt h VUndef k = Inl TypeError"
| "read_prop rt h VNull k = Inl TypeError"
| "read_prop rt h v k = (case own_prop h v k of None \<Rightarrow> Inr (rt h v k) | Some x \<Rightarrow> Inr x)"

definition INIT :: string where
  "INIT = ''@@redux/INIT''"

section \<open>compose\<close>

text \<open>
  Modelled from the spec: \<open>compose\<close> is imported by \<open>applyMiddleware.js\<close> from
  \<open>./compose\<close>, which is not among the sources. Section 4.3: right-to-left function
  composition; \<open>compose()\<close> returns the identity function; \<open>compose(f)\<close> returns \<open>f\<close>
  unchanged.
\<close>

fun compose :: "('a \<Rightarrow> 'a) list \<Rightarrow> 'a \<Rightarrow> 'a" where
  "compose [] = (\<lambda>arg. arg)"
| "compose [f] = f"
| "compose (f # g # fs) = (\<lambda>arg. f (compose (g # fs) arg))"

section \<open>combineReducers\<close>

text \<open>
  A function of the caller that serves as a reducer: called with the object store, the
  previous state and the action, it returns a value or throws, and leaves a new object
  store. \<open>fns f\<close> is the body of the function \<open>VFun f\<close>.
\<close>

type_synonym reducer_fn = "heap \<Rightarrow> val \<Rightarrow> val \<Rightarrow> (error + val) \<times> heap"

type_synonym fns = "nat \<Rightarrow> reducer_fn"

text \<open>
  What \<open>warning(message)\<close> is called with: one constructor for every message that
  \<open>combineReducers.js\<close> builds, carrying what the message interpolates.
\<close>

datatype warning =
    NoReducerForKey string
  | NoValidReducer
  | UnexpectedStateType string string "string list"
  | UnexpectedKeys "string list" string "string list"

record world =
  objects :: heap
  warned :: "warning list"

text \<open>
  Modelled from the spec: \<open>warning\<close> is imported from \<open>./utils/warning\<close>, which is not
  among the sources. Section 4.2 has it record an advisory that is never fatal; the world
  keeps the advisories in the order of the calls.
\<close>

definition warn :: "warning \<Rightarrow> world \<Rightarrow> world" where
  "warn m w = w\<lparr>warned := warned w @ [m]\<rparr>"

text \<open>\<open>action && action.type\<close>\<close>

definition and_type :: "runtime \<Rightarrow> heap \<Rightarrow> val \<Rightarrow> val" where
  "and_type rt h action =
     (if truthy action
      then (case read_prop rt h action ''type'' of Inl e \<Rightarrow> VUndef | Inr t \<Rightarrow> t)
      else action)"

text \<open>
  \<open>getUndefinedStateErrorMessage(key, action)\<close>: the error carries the key and the
  action type that the message prints.
\<close>

definition getUndefinedStateErrorMessage :: "runtime \<Rightarrow> heap \<Rightarrow> string \<Rightarrow> val \<Rightarrow> error" where
  "getUndefinedStateErrorMessage rt h key action =
     ReducerUndefinedState key (and_type rt h action)"

text \<open>\<open>isPlainObject\<close> of lodash: an object whose prototype is \<open>Object.prototype\<close> or
  \<open>null\<close>, which the object itself records here.\<close>

definition isPlainObject :: "heap \<Rightarrow> val \<Rightarrow> bool" where
  "isPlainObject h v = (case v of VObj a \<Rightarrow> a < length h \<and> plain (h ! a) | _ \<Rightarrow> False)"

text \<open>The class name in \<open>({}).toString.call(v)\<close>.\<close>

fun type_tag :: "heap \<Rightarrow> val \<Rightarrow> string" where
  "type_tag h VUndef = ''Undefined''"
| "type_tag h VNull = ''Null''"
| "type_tag h (VBool b) = ''Boolean''"
| "type_tag h (VNum n) = ''Number''"
| "type_tag h (VStr s) = ''String''"
| "type_tag h (VObj a) = (if a < length h then tag (h ! a) else ''Object'')"
| "type_tag h (VFun f) = ''Function''"
| "type_tag h (VUnsub i) = ''Function''"

text \<open>\<open>Object.keys(v)\<close> of an object.\<close>

definition keys_of :: "heap \<Rightarrow> val \<Rightarrow> string list" where
  "keys_of h v = (case v of VObj a \<Rightarrow> (if a < length h then map fst (props (h ! a)) else []) | _ \<Rightarrow> [])"

text \<open>
  \<open>getUnexpectedStateShapeWarningMessage\<close>: the message, if any, and the cache of
  unexpected keys, which it extends.
\<close>

definition getUnexpectedStateShapeWarningMessage ::
  "runtime \<Rightarrow> heap \<Rightarrow> val \<Rightarrow> (string \<times> nat) list \<Rightarrow> val \<Rightarrow> string list \<Rightarrow> warning option \<times> string list" where
  "getUnexpectedStateShapeWarningMessage rt h inputState reducers action unexpectedKeyCache =
     (let reducerKeys = map fst reducers;
          argumentName =
            (if truthy action \<and> read_prop rt h action ''type'' = Inr (VStr INIT)
             then ''preloadedState argument passed to createStore''
             else ''previous state received by the reducer'')
      in if length reducerKeys = 0 then (Some NoValidReducer, unexpectedKeyCache)
         else if \<not> isPlainObject h inputState
           then (Some (UnexpectedStateType argumentName (type_tag h inputState) reducerKeys),
                 unexpectedKeyCache)
         else
           (let unexpectedKeys =
                  filter (\<lambda>key. map_of reducers key = None \<and> key \<notin> set unexpectedKeyCache)
                    (keys_of h inputState);
                cache' = unexpectedKeyCache @ unexpectedKeys
            in if length unexpectedKeys > 0
               then (Some (UnexpectedKeys unexpectedKeys argumentName reducerKeys), cache')
               else (None, cache')))"

text \<open>
  \<open>assertReducerSanity\<close>: the loop over the keys, stopping at the first throw. The
  probe's action type ends in a random string; \<open>rnd i\<close> is the string drawn for the
  \<open>i\<close>-th key. The two action objects are allocated in the object store.
\<close>

definition PROBE :: string where
  "PROBE = ''@@redux/PROBE_UNKNOWN_ACTION_''"

fun assertReducerSanity ::
  "fns \<Rightarrow> (nat \<Rightarrow> string) \<Rightarrow> nat \<Rightarrow> (string \<times> nat) list \<Rightarrow> heap \<Rightarrow> (error + unit) \<times> heap" where
  "assertReducerSanity \<rho> rnd i [] h = (Inr (), h)"
| "assertReducerSanity \<rho> rnd i ((key, reducer) # rest) h =
     (let (a1, h1) = alloc h (literal [(''type'', VStr INIT)])
      in case \<rho> reducer h1 VUndef a1 of
           (Inl e, h2) \<Rightarrow> (Inl e, h2)
         | (Inr initialState, h2) \<Rightarrow>
             if initialState = VUndef then (Inl (ReducerUndefinedInit key), h2)
             else
               (let (a2, h3) = alloc h2 (literal [(''type'', VStr (PROBE @ rnd i))])
                in case \<rho> reducer h3 VUndef a2 of
                     (Inl e, h4) \<Rightarrow> (Inl e, h4)
                   | (Inr probed, h4) \<Rightarrow>
                       if probed = VUndef then (Inl (ReducerUndefinedProbe key), h4)
                       else assertReducerSanity \<rho> rnd (Suc i) rest h4))"

text \<open>
  The closure that \<open>combineReducers\<close> returns: the variables \<open>combination\<close> captures.
  \<open>unexpectedKeyCache\<close> is the only one that a call changes.
\<close>

record composed =
  finalReducers :: "(string \<times> nat) list"
  sanityError :: "error option"
  production :: bool
  unexpectedKeyCache :: "string list"

text \<open>
  The first loop of \<open>combineReducers\<close>, over \<open>Object.keys(reducers)\<close>: in a
  non-production build a warning for a value that is \<open>undefined\<close>, and the entry is
  kept when its value is a function.
\<close>

fun pick_reducers ::
  "bool \<Rightarrow> (string \<times> val) list \<Rightarrow> string list \<Rightarrow> (string \<times> nat) list \<Rightarrow> world
     \<Rightarrow> (string \<times> nat) list \<times> world" where
  "pick_reducers isProd reducers [] final w = (final, w)"
| "pick_reducers isProd reducers (key # keys) final w =
     (let r = (case map_of reducers key of None \<Rightarrow> VUndef | Some v \<Rightarrow> v);
          w1 = (if \<not> isProd \<and> r = VUndef then warn (NoReducerForKey key) w else w);
          final1 = (case r of VFun f \<Rightarrow> AList.update key f final | _ \<Rightarrow> final)
      in pick_reducers isProd reducers keys final1 w1)"

definition combineReducers ::
  "bool \<Rightarrow> fns \<Rightarrow> (nat \<Rightarrow> string) \<Rightarrow> (string \<times> val) list \<Rightarrow> world \<Rightarrow> composed \<times> world" where
  "combineReducers isProd \<rho> rnd reducers w =
     (let (final, w1) = pick_reducers isProd reducers (map fst reducers) [] w;
          (r, h2) = assertReducerSanity \<rho> rnd 0 final (objects w1)
      in (\<lparr>finalReducers = final,
           sanityError = (case r of Inl e \<Rightarrow> Some e | Inr u \<Rightarrow> None),
           production = isProd,
           unexpectedKeyCache = []\<rparr>,
          w1\<lparr>objects := h2\<rparr>))"

text \<open>\<open>if (sanityError)\<close>: an error object is truthy; a thrown value is tested itself.\<close>

fun error_truthy :: "error \<Rightarrow> bool" where
  "error_truthy (Thrown v) = truthy v"
| "error_truthy e = True"

text \<open>
  The loop of \<open>combination\<close> over the surviving keys. \<open>nextState\<close> is reachable by no
  reducer before it is returned, so the loop carries its properties and the caller
  allocates the object.
\<close>

fun reduce_keys ::
  "runtime \<Rightarrow> fns \<Rightarrow> val \<Rightarrow> val \<Rightarrow> (string \<times> nat) list \<Rightarrow> bool \<Rightarrow> (string \<times> val) list \<Rightarrow> heap
     \<Rightarrow> (error + bool \<times> (string \<times> val) list) \<times> heap" where
  "reduce_keys rt \<rho> state action [] hasChanged nextState h = (Inr (hasChanged, nextState), h)"
| "reduce_keys rt \<rho> state action ((key, reducer) # rest) hasChanged nextState h =
     (case read_prop rt h state key of
        Inl e \<Rightarrow> (Inl e, h)
      | Inr previousStateForKey \<Rightarrow>
          (case \<rho> reducer h previousStateForKey action of
             (Inl e, h1) \<Rightarrow> (Inl e, h1)
           | (Inr nextStateForKey, h1) \<Rightarrow>
               if nextStateForKey = VUndef
               then (Inl (getUndefinedStateErrorMessage rt h1 key action), h1)
               else reduce_keys rt \<rho> state action rest
                      (hasChanged \<or> nextStateForKey \<noteq> previousStateForKey)
                      (AList.update key nextStateForKey nextState) h1))"

text \<open>
  \<open>combination(state = {}, action)\<close>: the result, the closure (its cache may grow) and
  the world.
\<close>

text \<open>The default parameter \<open>state = {}\<close>: a fresh empty object replaces \<open>undefined\<close>.\<close>

definition default_state :: "heap \<Rightarrow> val \<Rightarrow> val \<times> heap" where
  "default_state h state0 = (if state0 = VUndef then alloc h (literal []) else (state0, h))"

definition combination ::
  "runtime \<Rightarrow> fns \<Rightarrow> composed \<Rightarrow> val \<Rightarrow> val \<Rightarrow> world \<Rightarrow> (error + val) \<times> composed \<times> world" where
  "combination rt \<rho> c state0 action w0 =
     (let (state, h0) = default_state (objects w0) state0;
          w = w0\<lparr>objects := h0\<rparr>
      in case (case sanityError c of None \<Rightarrow> None
               | Some e \<Rightarrow> if error_truthy e then Some e else None) of
           Some e \<Rightarrow> (Inl e, c, w)
         | None \<Rightarrow>
            (let (c1, w1) =
                   (if \<not> production c
                    then (let (warningMessage, cache) =
                                getUnexpectedStateShapeWarningMessage rt (objects w) state
                                  (finalReducers c) action (unexpectedKeyCache c)
                          in (c\<lparr>unexpectedKeyCache := cache\<rparr>,
                              (case warningMessage of None \<Rightarrow> w | Some m \<Rightarrow> warn m w)))
                    else (c, w))
             in case reduce_keys rt \<rho> state action (finalReducers c) False [] (objects w1) of
                  (Inl e, h1) \<Rightarrow> (Inl e, c1, w1\<lparr>objects := h1\<rparr>)
                | (Inr (hasChanged, nextState), h1) \<Rightarrow>
                    if hasChanged
                    then (let (r, h2) = alloc h1 (literal nextState)
                          in (Inr r, c1, w1\<lparr>objects := h2\<rparr>))
                    else (Inr state, c1, w1\<lparr>objects := h1\<rparr>)))"

text \<open>A sequence of calls of one composed reducer, each on the closure the last one left.\<close>

fun call_sequence ::
  "runtime \<Rightarrow> fns \<Rightarrow> composed \<Rightarrow> (val \<times> val) list \<Rightarrow> world \<Rightarrow> (error + val) list" where
  "call_sequence rt \<rho> c [] w = []"
| "call_sequence rt \<rho> c ((state, action) # calls) w =
     (case combination rt \<rho> c state action w of
        (r, c1, w1) \<Rightarrow> r # call_sequence rt \<rho> c1 calls w1)"

subsection \<open>The composed reducer in the words of the specification\<close>

text \<open>The entries of a reducer map whose value is a function, and the keys whose value is
  \<open>undefined\<close>.\<close>

fun callable_entries :: "(string \<times> val) list \<Rightarrow> (string \<times> nat) list" where
  "callable_entries [] = []"
| "callable_entries ((key, VFun f) # rest) = (key, f) # callable_entries rest"
| "callable_entries ((key, v) # rest) = callable_entries rest"

fun undefined_keys :: "(string \<times> val) list \<Rightarrow> string list" where
  "undefined_keys [] = []"
| "undefined_keys ((key, VUndef) # rest) = key # undefined_keys rest"
| "undefined_keys ((key, v) # rest) = undefined_keys rest"

fun uncallable_keys :: "(string \<times> val) list \<Rightarrow> string list" where
  "uncallable_keys [] = []"
| "uncallable_keys ((key, VFun f) # rest) = uncallable_keys rest"
| "uncallable_keys ((key, v) # rest) = key # uncallable_keys rest"


definition unchanged :: "(string \<times> val \<times> val) list \<Rightarrow> bool" where
  "unchanged calls = list_all (\<lambda>(key, previous, next). next = previous) calls"


subsection \<open>Example reducers\<close>

text \<open>
  Function \<open>0\<close> returns \<open>undefined\<close> always; function \<open>1\<close> is \<open>(s = 0, _) => s\<close>;
  function \<open>2\<close> is \<open>(s = 0, _) => s + 1\<close> on numbers; every other function returns its
  state, or \<open>null\<close> for \<open>undefined\<close>.
\<close>

definition example_fns :: fns where
  "example_fns f h s a =
     (if f = 0 then (Inr VUndef, h)
      else if f = 1 then (Inr (if s = VUndef then VNum 0 else s), h)
      else if f = 2 then (Inr (case s of VNum n \<Rightarrow> VNum (n + 1) | _ \<Rightarrow> VNum 1), h)
      else (Inr (if s = VUndef then VNull else s), h))"

text \<open>An engine in which every value has the inherited property \<open>constructor\<close>, the
  function \<open>7\<close>, and no other property that is not its own.\<close>

definition example_runtime :: runtime where
  "example_runtime h v key = (if key = ''constructor'' then VFun 7 else VUndef)"

definition example_rnd :: "nat \<Rightarrow> string" where
  "example_rnd i = ''x.y.z''"

definition empty_world :: world where
  "empty_world = \<lparr>objects = [], warned = []\<rparr>"

text \<open>A world with the action \<open>{type: 'A'}\<close> at address 0 and the state
  \<open>{a: 1, extra: 7}\<close> at address 1.\<close>

definition example_world :: world where
  "example_world =
     \<lparr>objects = [literal [(''type'', VStr ''A'')], literal [(''a'', VNum 1), (''extra'', VNum 7)]],
      warned = []\<rparr>"

section \<open>createStore\<close>

subsection \<open>Callbacks\<close>

text \<open>
  Reducers and listeners are functions of the caller that can call back into the store
  they belong to. The body of such a function is a program over the interface of the
  store: it returns, throws, or makes one call and goes on with the outcome of that call,
  the value returned or the error raised (so a body can catch). Besides the methods of
  the store a body can allocate an object and read a property. \<open>Unsubscribe i\<close> calls the
  function that the \<open>i\<close>-th call of \<open>subscribe\<close> returned, counted from 0; while there is
  no such function the call is a \<open>TypeError\<close>, as a call of \<open>undefined\<close> is.
\<close>

datatype cmd =
    Dispatch val
  | GetState
  | Subscribe val
  | Unsubscribe nat
  | ReplaceReducer val
  | New obj
  | Prop val string

datatype prog =
    Return val
  | Throw error
  | Call cmd "error + val \<Rightarrow> prog"

text \<open>\<open>bodies f args\<close> is the body of the function \<open>VFun f\<close> called with \<open>args\<close>.\<close>

type_synonym bodies = "nat \<Rightarrow> val list \<Rightarrow> prog"

text \<open>
  The outcome of a call: \<open>None\<close> when it does not return within the fuel it is given,
  else the value or the error, and the state it leaves.
\<close>

type_synonym 'st res = "((error + val) \<times> 'st) option"

primrec exec :: "(cmd \<Rightarrow> 'st \<Rightarrow> 'st res) \<Rightarrow> prog \<Rightarrow> 'st \<Rightarrow> 'st res" where
  "exec api (Return v) s = Some (Inr v, s)"
| "exec api (Throw e) s = Some (Inl e, s)"
| "exec api (Call c k) s =
     (case api c s of None \<Rightarrow> None | Some (r, s1) \<Rightarrow> exec api (k r) s1)"

subsection \<open>The variables of a store\<close>

text \<open>
  What is observed of a run: the calls of the reducer, with state and action, and the
  calls of listeners. The trace is no variable of the source.
\<close>

datatype event = Reduced val val | Notified val | Note string

text \<open>
  The variables that the closures of \<open>createStore\<close> share. The two listener variables
  hold references to arrays, which live in \<open>arrays\<close>: \<open>nextListeners === currentListeners\<close>
  compares the references. \<open>subscriptions\<close> has, for every call of \<open>subscribe\<close> so far,
  its \<open>listener\<close> and its variable \<open>isSubscribed\<close>.
\<close>

record store = world +
  currentReducer :: val
  currentState :: val
  arrays :: "val list list"
  currentListeners :: nat
  nextListeners :: nat
  isDispatching :: bool
  subscriptions :: "(val \<times> bool) list"
  trace :: "event list"

definition array_at :: "store \<Rightarrow> nat \<Rightarrow> val list" where
  "array_at s a = (if a < length (arrays s) then arrays s ! a else [])"

definition ensureCanMutateNextListeners :: "store \<Rightarrow> store" where
  "ensureCanMutateNextListeners s =
     (if nextListeners s = currentListeners s
      then s\<lparr>arrays := arrays s @ [array_at s (currentListeners s)],
             nextListeners := length (arrays s)\<rparr>
      else s)"

definition getState :: "store \<Rightarrow> (error + val) \<times> store" where
  "getState s =
     (if isDispatching s then (Inl GetStateWhileDispatching, s) else (Inr (currentState s), s))"

text \<open>\<open>nextListeners.push(listener)\<close>\<close>

definition push_next :: "val \<Rightarrow> store \<Rightarrow> store" where
  "push_next listener s =
     s\<lparr>arrays := (arrays s)[nextListeners s := array_at s (nextListeners s) @ [listener]]\<rparr>"

definition subscribe :: "val \<Rightarrow> store \<Rightarrow> (error + val) \<times> store" where
  "subscribe listener s =
     (if \<not> is_function listener then (Inl ListenerNotFunction, s)
      else if isDispatching s then (Inl SubscribeWhileDispatching, s)
      else
        (let s1 = s\<lparr>subscriptions := subscriptions s @ [(listener, True)]\<rparr>;
             s2 = ensureCanMutateNextListeners s1;
             s3 = push_next listener s2
         in (Inr (VUnsub (length (subscriptions s))), s3)))"

text \<open>\<open>xs.indexOf(x)\<close>, and \<open>xs.splice(index, 1)\<close>, where a negative index counts from the end.\<close>

fun indexOf :: "val \<Rightarrow> val list \<Rightarrow> int" where
  "indexOf x [] = - 1"
| "indexOf x (y # ys) =
     (if y = x then 0 else (let i = indexOf x ys in if i < 0 then - 1 else i + 1))"

definition splice1 :: "int \<Rightarrow> val list \<Rightarrow> val list" where
  "splice1 index xs =
     (let len = int (length xs);
          start = (if index < 0 then max (len + index) 0 else min index len)
      in take (nat start) xs @ drop (nat start + 1) xs)"

definition unsubscribe :: "nat \<Rightarrow> store \<Rightarrow> (error + val) \<times> store" where
  "unsubscribe i s =
     (if \<not> i < length (subscriptions s) then (Inl TypeError, s)
      else
        (let (listener, isSubscribed) = subscriptions s ! i
         in if \<not> isSubscribed then (Inr VUndef, s)
            else if isDispatching s then (Inl UnsubscribeWhileDispatching, s)
            else
              (let s1 = s\<lparr>subscriptions := (subscriptions s)[i := (listener, False)]\<rparr>;
                   s2 = ensureCanMutateNextListeners s1;
                   index = indexOf listener (array_at s2 (nextListeners s2));
                   s3 = s2\<lparr>arrays := (arrays s2)[nextListeners s2 :=
                                      splice1 index (array_at s2 (nextListeners s2))]\<rparr>
               in (Inr VUndef, s3))))"

subsection \<open>dispatch\<close>

text \<open>
  The loop over \<open>listeners\<close>, the array at address \<open>a\<close>: its length is read again in
  every round. \<open>call\<close> calls a function value; the first argument bounds the rounds.
\<close>

primrec notify ::
  "(val \<Rightarrow> val list \<Rightarrow> store \<Rightarrow> store res) \<Rightarrow> nat \<Rightarrow> nat \<Rightarrow> nat \<Rightarrow> store \<Rightarrow> store res" where
  "notify call 0 a i s =
     (if i < length (array_at s a) then None else Some (Inr VUndef, s))"
| "notify call (Suc m) a i s =
     (if i < length (array_at s a)
      then (case call (array_at s a ! i) []
                   (s\<lparr>trace := trace s @ [Notified (array_at s a ! i)]\<rparr>) of
              None \<Rightarrow> None
            | Some (Inl e, s1) \<Rightarrow> Some (Inl e, s1)
            | Some (Inr v, s1) \<Rightarrow> notify call m a (Suc i) s1)
      else Some (Inr VUndef, s))"

definition dispatch_with ::
  "(val \<Rightarrow> val list \<Rightarrow> store \<Rightarrow> store res) \<Rightarrow> nat \<Rightarrow> val \<Rightarrow> store \<Rightarrow> store res" where
  "dispatch_with call m action s =
     (if \<not> isPlainObject (objects s) action then Some (Inl ActionNotPlain, s)
      else if get_prop (objects s) action ''type'' = Inr VUndef
        then Some (Inl ActionTypeUndefined, s)
      else if isDispatching s then Some (Inl DispatchWhileDispatching, s)
      else
        (case call (currentReducer s) [currentState s, action]
                (s\<lparr>isDispatching := True,
                   trace := trace s @ [Reduced (currentState s) action]\<rparr>) of
           None \<Rightarrow> None
         | Some (Inl e, s1) \<Rightarrow> Some (Inl e, s1\<lparr>isDispatching := False\<rparr>)
         | Some (Inr v, s1) \<Rightarrow>
             (let s2 = s1\<lparr>currentState := v, isDispatching := False\<rparr>;
                  s3 = s2\<lparr>currentListeners := nextListeners s2\<rparr>
              in case notify call m (currentListeners s3) 0 s3 of
                   None \<Rightarrow> None
                 | Some (Inl e, s4) \<Rightarrow> Some (Inl e, s4)
                 | Some (Inr u, s4) \<Rightarrow> Some (Inr action, s4))))"

definition replaceReducer_with ::
  "(val \<Rightarrow> val list \<Rightarrow> store \<Rightarrow> store res) \<Rightarrow> nat \<Rightarrow> val \<Rightarrow> store \<Rightarrow> store res" where
  "replaceReducer_with call m nextReducer s =
     (if \<not> is_function nextReducer then Some (Inl NextReducerNotFunction, s)
      else
        (let s1 = s\<lparr>currentReducer := nextReducer\<rparr>;
             (a, h) = alloc (objects s1) (literal [(''type'', VStr INIT)])
         in case dispatch_with call m a (s1\<lparr>objects := h\<rparr>) of
              None \<Rightarrow> None
            | Some (Inl e, s2) \<Rightarrow> Some (Inl e, s2)
            | Some (Inr v, s2) \<Rightarrow> Some (Inr VUndef, s2)))"

text \<open>What a call of a body does to the store.\<close>

definition api ::
  "(val \<Rightarrow> val list \<Rightarrow> store \<Rightarrow> store res) \<Rightarrow> nat \<Rightarrow> cmd \<Rightarrow> store \<Rightarrow> store res" where
  "api call m c s =
     (case c of
        Dispatch action \<Rightarrow> dispatch_with call m action s
      | GetState \<Rightarrow> Some (getState s)
      | Subscribe listener \<Rightarrow> Some (subscribe listener s)
      | Unsubscribe i \<Rightarrow> Some (unsubscribe i s)
      | ReplaceReducer nextReducer \<Rightarrow> replaceReducer_with call m nextReducer s
      | New ob \<Rightarrow> (let (r, h) = alloc (objects s) ob in Some (Inr r, s\<lparr>objects := h\<rparr>))
      | Prop v key \<Rightarrow> Some (get_prop (objects s) v key, s))"

text \<open>
  Calling a function value with at most \<open>n\<close> nested calls of bodies, each loop over
  listeners bounded by its own depth.
\<close>

primrec call :: "bodies \<Rightarrow> nat \<Rightarrow> val \<Rightarrow> val list \<Rightarrow> store \<Rightarrow> store res" where
  "call \<rho> 0 = (\<lambda>f args s. None)"
| "call \<rho> (Suc n) =
     (\<lambda>f args s.
        case f of
          VFun i \<Rightarrow> exec (api (call \<rho> n) n) (\<rho> i args) s
        | VUnsub i \<Rightarrow> Some (unsubscribe i s)
        | _ \<Rightarrow> Some (Inl TypeError, s))"

definition dispatch :: "bodies \<Rightarrow> nat \<Rightarrow> val \<Rightarrow> store \<Rightarrow> store res" where
  "dispatch \<rho> n = dispatch_with (call \<rho> n) n"

definition replaceReducer :: "bodies \<Rightarrow> nat \<Rightarrow> val \<Rightarrow> store \<Rightarrow> store res" where
  "replaceReducer \<rho> n = replaceReducer_with (call \<rho> n) n"

subsection \<open>createStore\<close>

text \<open>
  The object that \<open>createStore\<close> returns: its methods, acting on the variables of the
  store. (\<open>observable\<close>, built from \<open>subscribe\<close> and \<open>getState\<close>, is left out.)
\<close>

record handle =
  dispatch_of :: "val \<Rightarrow> store \<Rightarrow> store res"
  subscribe_of :: "val \<Rightarrow> store \<Rightarrow> store res"
  getState_of :: "store \<Rightarrow> store res"
  replaceReducer_of :: "val \<Rightarrow> store \<Rightarrow> store res"

type_synonym creator = "val \<Rightarrow> val \<Rightarrow> val \<Rightarrow> world \<Rightarrow> (error + handle \<times> store) option"

definition store_handle :: "bodies \<Rightarrow> nat \<Rightarrow> handle" where
  "store_handle \<rho> n =
     \<lparr>dispatch_of = dispatch \<rho> n,
      subscribe_of = (\<lambda>listener s. Some (subscribe listener s)),
      getState_of = (\<lambda>s. Some (getState s)),
      replaceReducer_of = replaceReducer \<rho> n\<rparr>"

definition initial_store :: "val \<Rightarrow> val \<Rightarrow> world \<Rightarrow> store" where
  "initial_store reducer preloadedState w =
     \<lparr>objects = objects w, warned = warned w,
      currentReducer = reducer, currentState = preloadedState,
      arrays = [[]], currentListeners = 0, nextListeners = 0,
      isDispatching = False, subscriptions = [], trace = []\<rparr>"

text \<open>
  \<open>createStore(reducer, preloadedState, enhancer)\<close>. \<open>enh e\<close> is the enhancer \<open>VFun e\<close>;
  it is given \<open>createStore\<close> itself, with one unit of fuel less.
\<close>

primrec createStore :: "bodies \<Rightarrow> (nat \<Rightarrow> creator \<Rightarrow> creator) \<Rightarrow> nat \<Rightarrow> creator" where
  "createStore \<rho> enh 0 = (\<lambda>reducer preloadedState enhancer w. None)"
| "createStore \<rho> enh (Suc n) =
     (\<lambda>reducer preloadedState0 enhancer0 w.
        let (preloadedState, enhancer) =
              (if is_function preloadedState0 \<and> enhancer0 = VUndef
               then (VUndef, preloadedState0) else (preloadedState0, enhancer0))
        in if enhancer \<noteq> VUndef
           then (if \<not> is_function enhancer then Some (Inl EnhancerNotFunction)
                 else (case enhancer of
                         VFun e \<Rightarrow> enh e (createStore \<rho> enh n) reducer preloadedState VUndef w
                       | _ \<Rightarrow> Some (Inl TypeError)))
           else if \<not> is_function reducer then Some (Inl ReducerNotFunction)
           else
             (let s0 = initial_store reducer preloadedState w;
                  (a, h) = alloc (objects s0) (literal [(''type'', VStr INIT)])
              in case dispatch \<rho> n a (s0\<lparr>objects := h\<rparr>) of
                   None \<Rightarrow> None
                 | Some (Inl e, s) \<Rightarrow> Some (Inl e)
                 | Some (Inr v, s) \<Rightarrow> Some (Inr (store_handle \<rho> n, s))))"

subsection \<open>The store in the words of the specification\<close>

text \<open>
  A reducer that is a pure function: its body only reads properties and allocates
  objects. \<open>pure_api\<close> runs such a body on the object store alone and does not return for
  a body that calls the store.
\<close>

definition pure_api :: "cmd \<Rightarrow> heap \<Rightarrow> heap res" where
  "pure_api c h =
     (case c of
        New ob \<Rightarrow> (let (r, h1) = alloc h ob in Some (Inr r, h1))
      | Prop v key \<Rightarrow> Some (get_prop h v key, h)
      | _ \<Rightarrow> None)"

text \<open>
  Sections 4.1 and 5: the calls that fail with \<open>InvalidOperationError\<close> while a
  transition is in progress (a dispatch of a valid action, \<open>getState\<close>, \<open>subscribe\<close> of a
  listener, the first call of an \<open>unsubscribe\<close>), and the error of each.
\<close>

fun guarded :: "store \<Rightarrow> cmd \<Rightarrow> bool" where
  "guarded s (Dispatch action) =
     (isPlainObject (objects s) action \<and> get_prop (objects s) action ''type'' \<noteq> Inr VUndef)"
| "guarded s GetState = True"
| "guarded s (Subscribe listener) = is_function listener"
| "guarded s (Unsubscribe i) = (i < length (subscriptions s) \<and> snd (subscriptions s ! i))"
| "guarded s c = False"

fun rejection :: "cmd \<Rightarrow> error" where
  "rejection (Dispatch action) = DispatchWhileDispatching"
| "rejection GetState = GetStateWhileDispatching"
| "rejection (Subscribe listener) = SubscribeWhileDispatching"
| "rejection (Unsubscribe i) = UnsubscribeWhileDispatching"
| "rejection c = TypeError"

text \<open>
  Two states of a store agree on the transition in flight: on every variable but the
  reducer and the object store, and on the trace.
\<close>

definition same_transition :: "store \<Rightarrow> store \<Rightarrow> bool" where
  "same_transition s s1 \<longleftrightarrow>
     isDispatching s1 = isDispatching s \<and> currentState s1 = currentState s \<and>
     arrays s1 = arrays s \<and> currentListeners s1 = currentListeners s \<and>
     nextListeners s1 = nextListeners s \<and> subscriptions s1 = subscriptions s \<and>
     trace s1 = trace s"

text \<open>
  Section 4.1: a dispatch in progress iterates its frozen snapshot. The pass over a list
  of listeners that is fixed when the pass begins.
\<close>

fun notify_frozen ::
  "(val \<Rightarrow> val list \<Rightarrow> store \<Rightarrow> store res) \<Rightarrow> val list \<Rightarrow> store \<Rightarrow> store res" where
  "notify_frozen cl [] s = Some (Inr VUndef, s)"
| "notify_frozen cl (listener # rest) s =
     (case cl listener [] (s\<lparr>trace := trace s @ [Notified listener]\<rparr>) of
        None \<Rightarrow> None
      | Some (Inl e, s1) \<Rightarrow> Some (Inl e, s1)
      | Some (Inr v, s1) \<Rightarrow> notify_frozen cl rest s1)"

text \<open>
  The arrays at the addresses \<open>A\<close> are snapshots of passes in progress. They are safe in a
  state where \<open>nextListeners\<close> refers to none of them unless it is \<open>currentListeners\<close> too;
  a call keeps them when they hold afterwards what they held before.
\<close>

definition snapshot_safe :: "nat set \<Rightarrow> store \<Rightarrow> bool" where
  "snapshot_safe A s \<longleftrightarrow>
     (\<forall>a\<in>A. a < length (arrays s)) \<and>
     (nextListeners s \<in> A \<longrightarrow> nextListeners s = currentListeners s)"

definition keeps_arrays :: "nat set \<Rightarrow> store \<Rightarrow> store \<Rightarrow> bool" where
  "keeps_arrays A s s1 \<longleftrightarrow>
     (\<forall>a\<in>A. arrays s1 ! a = arrays s ! a) \<and> (\<exists>t. trace s1 = trace s @ t)"

definition good_call :: "(val \<Rightarrow> val list \<Rightarrow> store \<Rightarrow> store res) \<Rightarrow> bool" where
  "good_call cl \<longleftrightarrow>
     (\<forall>A f args s r s1. snapshot_safe A s \<longrightarrow> cl f args s = Some (r, s1) \<longrightarrow>
        snapshot_safe A s1 \<and> keeps_arrays A s s1)"

section \<open>applyMiddleware\<close>

text \<open>
  A middleware is a function of the caller: given \<open>{getState, dispatch}\<close> it returns a
  function from the next dispatch function to a dispatch function. Dispatch functions act
  on the variables of the store.
\<close>

type_synonym dispatch_fn = "val \<Rightarrow> store \<Rightarrow> store res"

record middlewareAPI =
  api_getState :: "store \<Rightarrow> store res"
  api_dispatch :: dispatch_fn

type_synonym middleware = "middlewareAPI \<Rightarrow> dispatch_fn \<Rightarrow> dispatch_fn"

text \<open>
  The variable \<open>dispatch\<close> of \<open>applyMiddleware\<close> after line 27: \<open>compose(...chain)\<close> applied
  to \<open>store.dispatch\<close>, where every member of the chain was given a \<open>middlewareAPI\<close> whose
  \<open>dispatch\<close> calls what that same variable holds. The reference of the function to itself
  is unrolled \<open>d\<close> times; a middleware that re-enters more deeply does not return. (A
  middleware is a pure function of its two first arguments here, so none dispatches before
  line 27, while the variable still holds \<open>store.dispatch\<close>.)
\<close>

primrec pipeline :: "nat \<Rightarrow> middleware list \<Rightarrow> handle \<Rightarrow> dispatch_fn" where
  "pipeline 0 middlewares st = (\<lambda>action s. None)"
| "pipeline (Suc d) middlewares st =
     (let middlewareAPI = \<lparr>api_getState = getState_of st,
                            api_dispatch = pipeline d middlewares st\<rparr>;
          chain = map (\<lambda>middleware. middleware middlewareAPI) middlewares
      in compose chain (dispatch_of st))"

definition applyMiddleware :: "nat \<Rightarrow> middleware list \<Rightarrow> creator \<Rightarrow> creator" where
  "applyMiddleware d middlewares create =
     (\<lambda>reducer preloadedState enhancer w.
        case create reducer preloadedState enhancer w of
          None \<Rightarrow> None
        | Some (Inl e) \<Rightarrow> Some (Inl e)
        | Some (Inr (st, s)) \<Rightarrow> Some (Inr (st\<lparr>dispatch_of := pipeline d middlewares st\<rparr>, s)))"

section \<open>Example callbacks and stores\<close>

text \<open>
  Reducers: \<open>counter\<close> adds one on the action type \<open>INC\<close>; \<open>nested\<close> dispatches its action
  again from inside and returns whether that was rejected; \<open>failing\<close> throws on the action
  type \<open>BOOM\<close>. Listeners: \<open>listener_one\<close> subscribes \<open>listener_two\<close> and then calls the
  \<open>unsubscribe\<close> of subscription 0, its own; \<open>listener_two\<close> does nothing.
\<close>

definition counter :: "val list \<Rightarrow> prog" where
  "counter args =
     (case args of
        [state, action] \<Rightarrow>
          Call (Prop action ''type'')
            (\<lambda>t. if t = Inr (VStr ''INC'')
                 then Return (case state of VNum n \<Rightarrow> VNum (n + 1) | _ \<Rightarrow> VNum 1)
                 else Return (if state = VUndef then VNum 0 else state))
      | _ \<Rightarrow> Throw TypeError)"

definition nested :: "val list \<Rightarrow> prog" where
  "nested args =
     (case args of
        [state, action] \<Rightarrow>
          Call (Dispatch action)
            (\<lambda>r. case r of
                   Inl e \<Rightarrow> (if e = DispatchWhileDispatching then Return (VStr ''rejected'')
                             else Throw e)
                 | Inr v \<Rightarrow> Return (VStr ''accepted''))
      | _ \<Rightarrow> Throw TypeError)"

definition failing :: "val list \<Rightarrow> prog" where
  "failing args =
     (case args of
        [state, action] \<Rightarrow>
          Call (Prop action ''type'')
            (\<lambda>t. if t = Inr (VStr ''BOOM'') then Throw (Thrown (VStr ''boom''))
                 else Return (if state = VUndef then VNum 0 else state))
      | _ \<Rightarrow> Throw TypeError)"

definition listener_one :: prog where
  "listener_one = Call (Subscribe (VFun 4)) (\<lambda>r. Call (Unsubscribe 0) (\<lambda>u. Return VUndef))"

definition listener_two :: prog where
  "listener_two = Return VUndef"

definition example_bodies :: bodies where
  "example_bodies f args =
     (if f = 0 then counter args
      else if f = 2 then nested args
      else if f = 3 then listener_one
      else if f = 4 then listener_two
      else if f = 5 then failing args
      else Return VUndef)"

text \<open>A world with the actions \<open>{type: 'A'}\<close>, \<open>{type: 'B'}\<close> and \<open>{type: 'BOOM'}\<close>.\<close>

definition actions_world :: world where
  "actions_world =
     \<lparr>objects = [literal [(''type'', VStr ''A'')], literal [(''type'', VStr ''B'')],
                 literal [(''type'', VStr ''BOOM'')]],
      warned = []\<rparr>"

definition no_enhancers :: "nat \<Rightarrow> creator \<Rightarrow> creator" where
  "no_enhancers e create = create"

text \<open>A store with the reducer \<open>counter\<close>, the state 0 and \<open>listener_one\<close> subscribed.\<close>

definition listening_store :: store where
  "listening_store = snd (subscribe (VFun 3) (initial_store (VFun 0) (VNum 0) actions_world))"

text \<open>A middleware that notes in the trace when an action comes in and when it is back.\<close>

definition logger :: "string \<Rightarrow> middleware" where
  "logger name middlewareAPI next =
     (\<lambda>action s.
        case next action (s\<lparr>trace := trace s @ [Note (name @ '' in'')]\<rparr>) of
          None \<Rightarrow> None
        | Some (r, s1) \<Rightarrow> Some (r, s1\<lparr>trace := trace s1 @ [Note (name @ '' out'')]\<rparr>))"

text \<open>A middleware that sends the action \<open>{type: 'A'}\<close> at address 0 through \<open>dispatch\<close> of
  its API as the action at address 1, and every other action on to \<open>next\<close>.\<close>

definition redirect :: middleware where
  "redirect middlewareAPI next =
     (\<lambda>action s. if action = VObj 0 then api_dispatch middlewareAPI (VObj (Suc 0)) s
                  else next action s)"

section \<open>Properties of compose\<close>

lemma compose_foldr: "compose fs x = foldr (\<lambda>f y. f y) fs x"
  by (induction fs arbitrary: x rule: compose.induct) simp_all

text \<open>
  Claim C8. \<open>compose\<close> is right-to-left composition: of no function it is the identity,
  of one function it is that function itself, and of three functions \<open>f\<close>, \<open>g\<close>, \<open>h\<close> it
  maps every \<open>x\<close> to \<open>f (g (h x))\<close>.
\<close>

theorem compose_right_to_left:
  "compose [] = (\<lambda>x. x) \<and> compose [f] = f \<and> compose [f, g, h] x = f (g (h x))"
  by simp

section \<open>Properties of combineReducers\<close>

subsection \<open>Which entries survive, and which are warned about\<close>

lemma update_fresh: "k \<notin> fst ` set al \<Longrightarrow> AList.update k v al = al @ [(k, v)]"
  by (induction al) auto

lemma callable_entries_Cons:
  "callable_entries ((k, v) # rs) = (case v of VFun f \<Rightarrow> [(k, f)] | _ \<Rightarrow> []) @ callable_entries rs"
  by (cases v) simp_all

lemma undefined_keys_Cons:
  "undefined_keys ((k, v) # rs) = (if v = VUndef then [k] else []) @ undefined_keys rs"
  by (cases v) simp_all

text \<open>
  The loop over the keys of a well-formed object (no key twice), started in its middle:
  \<open>pre\<close> are the entries already visited.
\<close>

lemma pick_reducers_distinct:
  "distinct (map fst (pre @ rs)) \<Longrightarrow> fst ` set final \<subseteq> fst ` set pre \<Longrightarrow>
   pick_reducers isProd (pre @ rs) (map fst rs) final w =
     (final @ callable_entries rs,
      w\<lparr>warned := warned w @ (if isProd then [] else map NoReducerForKey (undefined_keys rs))\<rparr>)"
proof (induction rs arbitrary: pre final w)
  case Nil
  then show ?case by simp
next
  case (Cons p rs)
  obtain k v where p: "p = (k, v)" by (cases p)
  from Cons.prems p have look: "map_of (pre @ p # rs) k = Some v"
    by (simp add: map_add_Some_iff map_of_eq_None_iff image_iff)
  have d: "distinct (map fst ((pre @ [p]) @ rs))" using Cons.prems by simp
  have kf: "k \<notin> fst ` set final" using Cons.prems p by auto
  define final1 where "final1 = final @ (case v of VFun f \<Rightarrow> [(k, f)] | _ \<Rightarrow> [])"
  define w1 where "w1 = (if \<not> isProd \<and> v = VUndef then warn (NoReducerForKey k) w else w)"
  have upd: "(case v of VFun f \<Rightarrow> AList.update k f final | _ \<Rightarrow> final) = final1"
    using kf by (cases v) (simp_all add: final1_def update_fresh)
  have sub: "fst ` set final1 \<subseteq> fst ` set (pre @ [p])"
    using Cons.prems p by (cases v) (auto simp: final1_def)
  have step: "pick_reducers isProd (pre @ p # rs) (map fst (p # rs)) final w =
      pick_reducers isProd ((pre @ [p]) @ rs) (map fst rs) final1 w1"
    using look p upd by (simp add: w1_def)
  have ih: "pick_reducers isProd ((pre @ [p]) @ rs) (map fst rs) final1 w1 =
      (final1 @ callable_entries rs,
       w1\<lparr>warned := warned w1 @ (if isProd then [] else map NoReducerForKey (undefined_keys rs))\<rparr>)"
    by (rule Cons.IH[OF d sub])
  have rhs: "(final1 @ callable_entries rs,
       w1\<lparr>warned := warned w1 @ (if isProd then [] else map NoReducerForKey (undefined_keys rs))\<rparr>) =
      (final @ callable_entries (p # rs),
       w\<lparr>warned := warned w @ (if isProd then [] else map NoReducerForKey (undefined_keys (p # rs)))\<rparr>)"
    by (simp add: p callable_entries_Cons undefined_keys_Cons final1_def w1_def warn_def)
  show ?case unfolding step ih rhs ..
qed

text \<open>
  Claim C9, as the code has it. For every reducer map (an object: no key twice), the
  composed reducer keeps exactly the entries whose value is a function, in their order.
  In a non-production build \<open>combineReducers\<close> records one advisory for each entry whose
  value is \<open>undefined\<close>, and none for an entry whose value is present but not callable;
  in a production build it records none.
\<close>

theorem advisory_only_for_undefined_entries:
  assumes "distinct (map fst reducers)"
  shows "finalReducers (fst (combineReducers isProd \<rho> rnd reducers w)) = callable_entries reducers
       \<and> warned (snd (combineReducers isProd \<rho> rnd reducers w)) =
           warned w @ (if isProd then [] else map NoReducerForKey (undefined_keys reducers))"
  using pick_reducers_distinct[of "[]" reducers "[]" isProd w] assms
  by (simp add: combineReducers_def split: prod.splits)

theorem advisory_only_for_undefined_entries_witness:
  "distinct (map fst [(''a'', VFun 1), (''b'', VUndef), (''c'', VNum 5)])
   \<and> finalReducers (fst (combineReducers False example_fns example_rnd
        [(''a'', VFun 1), (''b'', VUndef), (''c'', VNum 5)] empty_world)) = [(''a'', 1)]
   \<and> warned (snd (combineReducers False example_fns example_rnd
        [(''a'', VFun 1), (''b'', VUndef), (''c'', VNum 5)] empty_world)) = [NoReducerForKey ''b'']
   \<and> warned (snd (combineReducers True example_fns example_rnd
        [(''a'', VFun 1), (''b'', VUndef), (''c'', VNum 5)] empty_world)) = []"
  using advisory_only_for_undefined_entries
          [of "[(''a'', VFun 1), (''b'', VUndef), (''c'', VNum 5)]" False example_fns example_rnd empty_world]
        advisory_only_for_undefined_entries
          [of "[(''a'', VFun 1), (''b'', VUndef), (''c'', VNum 5)]" True example_fns example_rnd empty_world]
  by (simp add: empty_world_def)

text \<open>
  Claim C9 as stated fails: in a non-production build the map \<open>{a: 5}\<close> has the entry
  \<open>a\<close>, present and not callable; it is excluded, and no advisory is recorded.
\<close>

theorem uncallable_entry_without_advisory:
  "uncallable_keys [(''a'', VNum 5)] = [''a'']
   \<and> finalReducers (fst (combineReducers False example_fns example_rnd [(''a'', VNum 5)] empty_world)) = []
   \<and> warned (snd (combineReducers False example_fns example_rnd [(''a'', VNum 5)] empty_world)) = []"
  by (simp add: combineReducers_def empty_world_def)

subsection \<open>The captured sanity failure\<close>

lemma objects_warn [simp]: "objects (warn m w) = objects w"
  by (simp add: warn_def)

lemma combination_sanity:
  assumes "sanityError c = Some e" and "error_truthy e"
  shows "combination rt \<rho> c state action w =
           (Inl e, c, w\<lparr>objects := snd (default_state (objects w) state)\<rparr>)"
  using assms by (simp add: combination_def split: prod.splits)

lemma call_sequence_sanity:
  assumes "sanityError c = Some e" and "error_truthy e"
  shows "call_sequence rt \<rho> c calls w = replicate (length calls) (Inl e)"
  using assms
proof (induction calls arbitrary: w)
  case Nil
  show ?case by simp
next
  case (Cons p calls)
  obtain s a where p: "p = (s, a)" by (cases p)
  show ?case using Cons p by (simp add: combination_sanity)
qed

text \<open>
  Claim C1. When \<open>combineReducers\<close> captured a sanity failure, the error of a reducer that
  returned \<open>undefined\<close> for the init action or for the probe, then every call in every
  sequence of calls of the composed reducer, whatever the states, the actions and the
  world, raises that same error, a \<open>ConfigurationError\<close>.
\<close>

theorem sanity_failure_raised_on_every_call:
  assumes "combineReducers isProd \<rho> rnd reducers w0 = (c, w1)"
      and "sanityError c = Some e"
      and "e = ReducerUndefinedInit key \<or> e = ReducerUndefinedProbe key"
  shows "kind_of e = ConfigurationError
       \<and> call_sequence rt \<rho> c calls w = replicate (length calls) (Inl e)"
proof -
  from assms(3) have t: "error_truthy e" and k: "kind_of e = ConfigurationError" by auto
  from call_sequence_sanity[OF assms(2) t] k show ?thesis by simp
qed

lemma example_bad:
  "combineReducers False example_fns example_rnd [(''bad'', VFun 0)] empty_world =
     (\<lparr>finalReducers = [(''bad'', 0)], sanityError = Some (ReducerUndefinedInit ''bad''),
       production = False, unexpectedKeyCache = []\<rparr>,
      \<lparr>objects = [literal [(''type'', VStr INIT)]], warned = []\<rparr>)"
  by (simp add: combineReducers_def empty_world_def alloc_def example_fns_def)

theorem sanity_failure_raised_on_every_call_witness:
  "sanityError (fst (combineReducers False example_fns example_rnd [(''bad'', VFun 0)] empty_world))
     = Some (ReducerUndefinedInit ''bad'')
   \<and> call_sequence example_runtime example_fns
        (fst (combineReducers False example_fns example_rnd [(''bad'', VFun 0)] empty_world))
        [(VUndef, VNull), (VNum 1, VStr ''x''), (VUndef, VNull)] empty_world
      = [Inl (ReducerUndefinedInit ''bad''), Inl (ReducerUndefinedInit ''bad''),
         Inl (ReducerUndefinedInit ''bad'')]"
  using sanity_failure_raised_on_every_call
          [OF example_bad, where e = "ReducerUndefinedInit ''bad''" and key = "''bad''"
             and rt = example_runtime
             and calls = "[(VUndef, VNull), (VNum 1, VStr ''x''), (VUndef, VNull)]"
             and w = empty_world]
  by (simp add: example_bad)

subsection \<open>The loop of the composed reducer\<close>

lemma unchanged_Cons [simp]: "unchanged ((k, p, n) # cs) = (n = p \<and> unchanged cs)"
  by (simp add: unchanged_def)

lemma unchanged_Nil [simp]: "unchanged []"
  by (simp add: unchanged_def)
















text \<open>
  A reducer under the key \<open>constructor\<close>, which the state \<open>{a: 1, extra: 7}\<close> does not
  own: its previous sub-state is the inherited property, the reducer returns it, and the
  composed reducer returns the state itself.
\<close>

lemma inherited_key_is_previous_state:
  "fst (combination example_runtime example_fns
          (fst (combineReducers True example_fns example_rnd [(''constructor'', VFun 3)]
                  empty_world))
          (VObj (Suc 0)) (VObj 0) example_world) = Inr (VObj (Suc 0))"
  by (simp add: combineReducers_def combination_def default_state_def alloc_def example_fns_def
        example_runtime_def example_world_def literal_def empty_world_def)



section \<open>Properties of createStore\<close>

subsection \<open>Construction\<close>

lemma exec_pure:
  "exec pure_api P h = Some (r, h1) \<Longrightarrow> objects s = h \<Longrightarrow>
   exec (api cl m) P s = Some (r, s\<lparr>objects := h1\<rparr>)"
proof (induction P arbitrary: h s)
  case (Return v)
  then show ?case by auto
next
  case (Throw e)
  then show ?case by auto
next
  case (Call c k)
  show ?case
  proof (cases c)
    case (New ob)
    with Call.prems Call.IH[of _ "h @ [ob]" "s\<lparr>objects := h @ [ob]\<rparr>"] show ?thesis
      by (auto simp: pure_api_def api_def alloc_def split: option.splits prod.splits)
  next
    case (Prop v key)
    with Call.prems Call.IH[of _ h s] show ?thesis
      by (auto simp: pure_api_def api_def split: option.splits prod.splits)
  qed (use Call.prems in \<open>auto simp: pure_api_def\<close>)
qed

lemma pure_extends:
  "exec pure_api P h = Some (r, h1) \<Longrightarrow> \<exists>ext. h1 = h @ ext"
proof (induction P arbitrary: h)
  case (Call c k)
  show ?case
  proof (cases c)
    case (New ob)
    with Call.prems Call.IH[of _ "h @ [ob]"] show ?thesis
      by (auto simp: pure_api_def alloc_def split: option.splits prod.splits)
  next
    case (Prop v key)
    with Call.prems Call.IH[of _ h] show ?thesis
      by (auto simp: pure_api_def split: option.splits prod.splits)
  qed (use Call.prems in \<open>auto simp: pure_api_def\<close>)
qed auto

text \<open>
  Claim C3. Let \<open>R\<close> be a reducer that is a pure function and returns a value \<open>v\<close> for the
  state \<open>undefined\<close> and the init action (the action object that \<open>createStore\<close> allocates,
  of type \<open>@@redux/INIT\<close>). Then \<open>createStore(R)\<close>, without preloaded state and without
  enhancer, returns a store whose \<open>getState()\<close> is \<open>v\<close>; the reducer was called exactly
  once, with \<open>undefined\<close> and the init action, before the handle was returned. Two units of
  fuel are enough.
\<close>

theorem createStore_initial_state:
  assumes "exec pure_api (\<rho> r [VUndef, VObj (length (objects w))])
             (objects w @ [literal [(''type'', VStr INIT)]]) = Some (Inr v, hb)"
  shows "case createStore \<rho> enh (Suc (Suc n)) (VFun r) VUndef VUndef w of
           Some (Inr (st, s)) \<Rightarrow>
             getState_of st s = Some (Inr v, s)
           \<and> trace s = [Reduced VUndef (VObj (length (objects w)))]
           \<and> get_prop (objects s) (VObj (length (objects w))) ''type'' = Inr (VStr INIT)
         | _ \<Rightarrow> False"
proof -
  let ?s0 = "(initial_store (VFun r) VUndef w)\<lparr>objects := objects w @ [literal [(''type'', VStr INIT)]]\<rparr>"
  let ?s1 = "?s0\<lparr>isDispatching := True,
                  trace := trace ?s0 @ [Reduced (currentState ?s0) (VObj (length (objects w)))]\<rparr>"
  have run: "exec (api (call \<rho> n) n) (\<rho> r [VUndef, VObj (length (objects w))]) ?s1
               = Some (Inr v, ?s1\<lparr>objects := hb\<rparr>)"
    by (rule exec_pure[OF assms]) (simp add: initial_store_def)
  obtain ext where ext: "hb = (objects w @ [literal [(''type'', VStr INIT)]]) @ ext"
    using pure_extends[OF assms] by blast
  have d: "dispatch \<rho> (Suc n) (VObj (length (objects w))) ?s0 =
             Some (Inr (VObj (length (objects w))),
                   ?s1\<lparr>objects := hb, currentState := v, isDispatching := False\<rparr>)"
    using run
    by (simp add: dispatch_def dispatch_with_def isPlainObject_def literal_def initial_store_def
          nth_append array_at_def)
  show ?thesis
    using d ext
    by (simp add: alloc_def Let_def initial_store_def store_handle_def getState_def nth_append
          literal_def)
qed

theorem createStore_initial_state_witness:
  "case createStore example_bodies no_enhancers (Suc (Suc 0)) (VFun 0) VUndef VUndef empty_world of
     Some (Inr (st, s)) \<Rightarrow>
       getState_of st s = Some (Inr (VNum 0), s)
     \<and> trace s = [Reduced VUndef (VObj (length (objects empty_world)))]
     \<and> get_prop (objects s) (VObj (length (objects empty_world))) ''type'' = Inr (VStr INIT)
   | _ \<Rightarrow> False"
  using createStore_initial_state[where \<rho> = example_bodies and r = 0 and w = empty_world
          and v = "VNum 0" and hb = "[literal [(''type'', VStr INIT)]]"
          and enh = no_enhancers and n = 0]
  by (simp add: example_bodies_def counter_def pure_api_def empty_world_def INIT_def literal_def)

subsection \<open>While the reducer is executing\<close>

lemma same_transition_refl [simp]: "same_transition s s"
  by (simp add: same_transition_def)

lemma same_transition_trans:
  "same_transition s s1 \<Longrightarrow> same_transition s1 s2 \<Longrightarrow> same_transition s s2"
  by (simp add: same_transition_def)

lemma dispatch_with_dispatching:
  "isDispatching s \<Longrightarrow> \<exists>e. dispatch_with cl m action s = Some (Inl e, s)"
  by (simp add: dispatch_with_def)

lemma api_dispatching:
  assumes "isDispatching s" and "api cl m c s = Some (r, s1)"
  shows "same_transition s s1"
proof (cases c)
  case (Dispatch action)
  with assms dispatch_with_dispatching[OF assms(1), of cl m action] show ?thesis
    by (auto simp: api_def)
next
  case GetState
  with assms show ?thesis by (auto simp: api_def getState_def)
next
  case (Subscribe l)
  with assms show ?thesis by (auto simp: api_def subscribe_def split: if_splits)
next
  case (Unsubscribe i)
  with assms show ?thesis
    by (auto simp: api_def unsubscribe_def Let_def split: if_splits prod.splits)
next
  case (ReplaceReducer nr)
  let ?s1 = "s\<lparr>currentReducer := nr, objects := objects s @ [literal [(''type'', VStr INIT)]]\<rparr>"
  have "isDispatching ?s1" using assms(1) by simp
  from dispatch_with_dispatching[OF this, of cl m "VObj (length (objects s))"]
  obtain e where "dispatch_with cl m (VObj (length (objects s))) ?s1 = Some (Inl e, ?s1)" by blast
  with ReplaceReducer assms show ?thesis
    by (auto simp: api_def replaceReducer_with_def alloc_def same_transition_def split: if_splits)
next
  case (New ob)
  with assms show ?thesis by (auto simp: api_def alloc_def same_transition_def)
next
  case (Prop v key)
  with assms show ?thesis by (auto simp: api_def)
qed

lemma exec_dispatching:
  "isDispatching s \<Longrightarrow> exec (api cl m) P s = Some (r, s1) \<Longrightarrow> same_transition s s1"
proof (induction P arbitrary: s)
  case (Call c k)
  from Call.prems(2) obtain r0 s0 where a: "api cl m c s = Some (r0, s0)"
    and e: "exec (api cl m) (k r0) s0 = Some (r, s1)"
    by (auto split: option.splits)
  have st: "same_transition s s0" by (rule api_dispatching[OF Call.prems(1) a])
  then have "isDispatching s0" using Call.prems(1) by (simp add: same_transition_def)
  from Call.IH[OF _ this e] st show ?case by (blast intro: same_transition_trans)
qed auto

lemma unsubscribe_dispatching:
  "isDispatching s \<Longrightarrow> unsubscribe i s = (r, s1) \<Longrightarrow> s1 = s"
  by (auto simp: unsubscribe_def Let_def split: if_splits prod.splits)

lemma call_dispatching:
  "isDispatching s \<Longrightarrow> call \<rho> n f args s = Some (r, s1) \<Longrightarrow> same_transition s s1"
proof (cases n)
  case 0
  assume "call \<rho> n f args s = Some (r, s1)"
  with 0 show ?thesis by simp
next
  case (Suc k)
  assume d: "isDispatching s" and c: "call \<rho> n f args s = Some (r, s1)"
  show ?thesis
  proof (cases f)
    case (VFun i)
    with c Suc exec_dispatching[OF d, of "call \<rho> k" k "\<rho> i args" r s1] show ?thesis by simp
  next
    case (VUnsub i)
    with c Suc unsubscribe_dispatching[OF d, of i r s1] show ?thesis by auto
  qed (use c Suc in auto)
qed

text \<open>
  Claim C4. In every state of a store in which \<open>isDispatching\<close> is true, so while the
  reducer is executing: a dispatch of a valid action, \<open>getState\<close>, \<open>subscribe\<close> of a
  listener and the first call of an \<open>unsubscribe\<close> each raise their
  \<open>InvalidOperationError\<close> and leave the store as it is, so the body that made the call
  goes on as if the call had only thrown; and every body, whatever calls it makes and
  catches, ends with \<open>isDispatching\<close> still true and with the state, the listeners, the
  subscriptions and the trace of the outer dispatch untouched.
\<close>

theorem reentrant_calls_rejected:
  assumes "isDispatching s"
  shows "(guarded s c \<longrightarrow>
            api cl m c s = Some (Inl (rejection c), s)
          \<and> kind_of (rejection c) = InvalidOperationError
          \<and> exec (api cl m) (Call c k) s = exec (api cl m) (k (Inl (rejection c))) s)
       \<and> (exec (api cl m) P s = Some (r, sa) \<longrightarrow> same_transition s sa)"
proof -
  have g: "api cl m c s = Some (Inl (rejection c), s) \<and> kind_of (rejection c) = InvalidOperationError"
    if "guarded s c"
    using that assms
    by (cases c) (auto simp: api_def dispatch_with_def getState_def subscribe_def unsubscribe_def
                        split: prod.splits)
  then have "exec (api cl m) (Call c k) s = exec (api cl m) (k (Inl (rejection c))) s"
    if "guarded s c" using that by simp
  with g exec_dispatching[OF assms] show ?thesis by blast
qed

theorem reentrant_calls_rejected_witness:
  "isDispatching ((initial_store (VFun 2) (VNum 0) actions_world)\<lparr>isDispatching := True\<rparr>)
   \<and> guarded ((initial_store (VFun 2) (VNum 0) actions_world)\<lparr>isDispatching := True\<rparr>)
        (Dispatch (VObj 0))
   \<and> api (call example_bodies 0) 0 (Dispatch (VObj 0))
        ((initial_store (VFun 2) (VNum 0) actions_world)\<lparr>isDispatching := True\<rparr>)
      = Some (Inl DispatchWhileDispatching,
              (initial_store (VFun 2) (VNum 0) actions_world)\<lparr>isDispatching := True\<rparr>)
   \<and> exec (api (call example_bodies 0) 0) (nested [VNum 0, VObj 0])
        ((initial_store (VFun 2) (VNum 0) actions_world)\<lparr>isDispatching := True\<rparr>)
      = Some (Inr (VStr ''rejected''),
              (initial_store (VFun 2) (VNum 0) actions_world)\<lparr>isDispatching := True\<rparr>)
   \<and> map_option (\<lambda>(r, s). (r, currentState s, isDispatching s))
        (dispatch example_bodies (Suc 0) (VObj 0) (initial_store (VFun 2) (VNum 0) actions_world))
      = Some (Inr (VObj 0), VStr ''rejected'', False)"
proof -
  let ?s = "(initial_store (VFun 2) (VNum 0) actions_world)\<lparr>isDispatching := True\<rparr>"
  have d: "isDispatching ?s" by simp
  have g: "guarded ?s (Dispatch (VObj 0))"
    by (simp add: initial_store_def actions_world_def isPlainObject_def literal_def)
  have n: "nested [VNum 0, VObj 0] = Call (Dispatch (VObj 0))
            (\<lambda>r. case r of
                   Inl e \<Rightarrow> (if e = DispatchWhileDispatching then Return (VStr ''rejected'')
                             else Throw e)
                 | Inr v \<Rightarrow> Return (VStr ''accepted''))"
    by (simp add: nested_def)
  from reentrant_calls_rejected[OF d, where c = "Dispatch (VObj 0)" and cl = "call example_bodies 0"
         and m = 0] g
  have a: "api (call example_bodies 0) 0 (Dispatch (VObj 0)) ?s = Some (Inl DispatchWhileDispatching, ?s)"
    and e: "\<And>k. exec (api (call example_bodies 0) 0) (Call (Dispatch (VObj 0)) k) ?s =
              exec (api (call example_bodies 0) 0) (k (Inl DispatchWhileDispatching)) ?s"
    by simp_all
  have x: "exec (api (call example_bodies 0) 0) (nested [VNum 0, VObj 0]) ?s
             = Some (Inr (VStr ''rejected''), ?s)"
    unfolding n e by simp
  have o: "map_option (\<lambda>(r, s). (r, currentState s, isDispatching s))
        (dispatch example_bodies (Suc 0) (VObj 0) (initial_store (VFun 2) (VNum 0) actions_world))
      = Some (Inr (VObj 0), VStr ''rejected'', False)"
    by (simp add: dispatch_def dispatch_with_def initial_store_def actions_world_def
          isPlainObject_def literal_def example_bodies_def nested_def api_def array_at_def)
  from d g a x o show ?thesis by simp
qed

subsection \<open>Snapshots of the listeners\<close>

lemma keeps_arrays_refl [simp]: "keeps_arrays A s s"
  by (simp add: keeps_arrays_def)

lemma keeps_arrays_trans: "keeps_arrays A s s1 \<Longrightarrow> keeps_arrays A s1 s2 \<Longrightarrow> keeps_arrays A s s2"
  by (auto simp: keeps_arrays_def)

lemma ensure_snapshot_safe:
  assumes "snapshot_safe A s"
  shows "snapshot_safe A (ensureCanMutateNextListeners s)"
    and "keeps_arrays A s (ensureCanMutateNextListeners s)"
    and "nextListeners (ensureCanMutateNextListeners s) \<notin> A"
    and "array_at (ensureCanMutateNextListeners s) (nextListeners (ensureCanMutateNextListeners s))
           = array_at s (nextListeners s)"
  using assms
  by (auto simp: snapshot_safe_def keeps_arrays_def ensureCanMutateNextListeners_def nth_append array_at_def)

lemma keeps_arrays_update: "n \<notin> A \<Longrightarrow> keeps_arrays A s (s\<lparr>arrays := (arrays s)[n := x]\<rparr>)"
  by (auto simp: keeps_arrays_def) (metis nth_list_update_neq)

lemma snapshot_safe_update: "snapshot_safe A s \<Longrightarrow> snapshot_safe A (s\<lparr>arrays := (arrays s)[n := x]\<rparr>)"
  by (simp add: snapshot_safe_def)

lemma subscribe_good:
  assumes "snapshot_safe A s" and "subscribe l s = (r, s1)"
  shows "snapshot_safe A s1 \<and> keeps_arrays A s s1"
proof (cases "\<not> is_function l \<or> isDispatching s")
  case True
  with assms show ?thesis by (auto simp: subscribe_def split: if_splits)
next
  case False
  let ?s1 = "s\<lparr>subscriptions := subscriptions s @ [(l, True)]\<rparr>"
  let ?s2 = "ensureCanMutateNextListeners ?s1"
  have i1: "snapshot_safe A ?s1" using assms(1) by (simp add: snapshot_safe_def)
  have k1: "keeps_arrays A s ?s1" by (simp add: keeps_arrays_def)
  note e = ensure_snapshot_safe[OF i1]
  have s1: "s1 = push_next l ?s2" using assms(2) False by (simp add: subscribe_def Let_def)
  have "snapshot_safe A (push_next l ?s2)" using e(1) unfolding push_next_def by (rule snapshot_safe_update)
  moreover have "keeps_arrays A ?s2 (push_next l ?s2)" using e(3) unfolding push_next_def
    by (rule keeps_arrays_update)
  ultimately show ?thesis using s1 k1 e(2) by (blast intro: keeps_arrays_trans)
qed

lemma unsubscribe_good:
  assumes "snapshot_safe A s" and "unsubscribe i s = (r, s1)"
  shows "snapshot_safe A s1 \<and> keeps_arrays A s s1"
proof (cases "i < length (subscriptions s) \<and> snd (subscriptions s ! i) \<and> \<not> isDispatching s")
  case False
  with assms show ?thesis
    by (auto simp: unsubscribe_def Let_def split: prod.splits if_splits)
next
  case True
  obtain l where l: "subscriptions s ! i = (l, True)" using True by (cases "subscriptions s ! i") auto
  let ?s1 = "s\<lparr>subscriptions := (subscriptions s)[i := (l, False)]\<rparr>"
  let ?s2 = "ensureCanMutateNextListeners ?s1"
  let ?s3 = "?s2\<lparr>arrays := (arrays ?s2)[nextListeners ?s2 :=
               splice1 (indexOf l (array_at ?s2 (nextListeners ?s2))) (array_at ?s2 (nextListeners ?s2))]\<rparr>"
  have i1: "snapshot_safe A ?s1" using assms(1) by (simp add: snapshot_safe_def)
  have k1: "keeps_arrays A s ?s1" by (simp add: keeps_arrays_def)
  note e = ensure_snapshot_safe[OF i1]
  have s1: "s1 = ?s3" using assms(2) True l by (simp add: unsubscribe_def Let_def)
  have "snapshot_safe A ?s3" using e(1) by (rule snapshot_safe_update)
  moreover have "keeps_arrays A ?s2 ?s3" using e(3) by (rule keeps_arrays_update)
  ultimately show ?thesis using s1 k1 e(2) by (blast intro: keeps_arrays_trans)
qed

lemma snapshot_safe_trace [simp]: "snapshot_safe A (s\<lparr>trace := t\<rparr>) = snapshot_safe A s"
  by (simp add: snapshot_safe_def)

lemma notify_good:
  assumes "good_call cl"
  shows "snapshot_safe A s \<Longrightarrow> notify cl m a i s = Some (r, s1) \<Longrightarrow> snapshot_safe A s1 \<and> keeps_arrays A s s1"
proof (induction m arbitrary: i s)
  case 0
  then show ?case by (auto split: if_splits)
next
  case (Suc m)
  show ?case
  proof (cases "i < length (array_at s a)")
    case False
    with Suc.prems show ?thesis by auto
  next
    case True
    let ?s0 = "s\<lparr>trace := trace s @ [Notified (array_at s a ! i)]\<rparr>"
    have i0: "snapshot_safe A ?s0" using Suc.prems(1) by simp
    have k0: "keeps_arrays A s ?s0" by (simp add: keeps_arrays_def)
    from Suc.prems(2) True obtain r0 s0 where
      c: "cl (array_at s a ! i) [] ?s0 = Some (r0, s0)"
      by (auto split: option.splits)
    from assms i0 c have g: "snapshot_safe A s0 \<and> keeps_arrays A ?s0 s0" unfolding good_call_def by blast
    show ?thesis
    proof (cases r0)
      case (Inl e)
      with Suc.prems(2) True c have "s1 = s0" by simp
      with g k0 show ?thesis by (blast intro: keeps_arrays_trans)
    next
      case (Inr v)
      with Suc.prems(2) True c have "notify cl m a (Suc i) s0 = Some (r, s1)" by simp
      from Suc.IH[OF _ this] g k0 show ?thesis by (blast intro: keeps_arrays_trans)
    qed
  qed
qed

lemma dispatch_with_good:
  assumes "good_call cl" and "snapshot_safe A s" and "dispatch_with cl m action s = Some (r, s1)"
  shows "snapshot_safe A s1 \<and> keeps_arrays A s s1"
proof (cases "\<not> isPlainObject (objects s) action \<or> get_prop (objects s) action ''type'' = Inr VUndef
               \<or> isDispatching s")
  case True
  with assms(2,3) show ?thesis by (auto simp: dispatch_with_def split: if_splits)
next
  case False
  let ?s0 = "s\<lparr>isDispatching := True, trace := trace s @ [Reduced (currentState s) action]\<rparr>"
  have i0: "snapshot_safe A ?s0" using assms(2) by (simp add: snapshot_safe_def)
  have k0: "keeps_arrays A s ?s0" by (simp add: keeps_arrays_def)
  from assms(3) False obtain r0 s0 where
    c: "cl (currentReducer s) [currentState s, action] ?s0 = Some (r0, s0)"
    by (auto simp: dispatch_with_def split: option.splits)
  from assms(1) i0 c have g: "snapshot_safe A s0 \<and> keeps_arrays A ?s0 s0" unfolding good_call_def by blast
  show ?thesis
  proof (cases r0)
    case (Inl e)
    with assms(3) False c have "s1 = s0\<lparr>isDispatching := False\<rparr>" by (simp add: dispatch_with_def)
    moreover have "snapshot_safe A (s0\<lparr>isDispatching := False\<rparr>)" using g by (simp add: snapshot_safe_def)
    moreover have "keeps_arrays A s0 (s0\<lparr>isDispatching := False\<rparr>)" by (simp add: keeps_arrays_def)
    ultimately show ?thesis using g k0 by (blast intro: keeps_arrays_trans)
  next
    case (Inr v)
    let ?s3 = "s0\<lparr>currentState := v, isDispatching := False, currentListeners := nextListeners s0\<rparr>"
    have i3: "snapshot_safe A ?s3" using g by (simp add: snapshot_safe_def)
    have k3: "keeps_arrays A s0 ?s3" by (simp add: keeps_arrays_def)
    from assms(3) False c Inr obtain r4 where
      n: "notify cl m (nextListeners s0) 0 ?s3 = Some (r4, s1)"
      by (auto simp: dispatch_with_def Let_def split: option.splits sum.splits prod.splits)
    from notify_good[OF assms(1) i3 n] g k0 k3 show ?thesis by (blast intro: keeps_arrays_trans)
  qed
qed

lemma replaceReducer_with_good:
  assumes "good_call cl" and "snapshot_safe A s" and "replaceReducer_with cl m nr s = Some (r, s1)"
  shows "snapshot_safe A s1 \<and> keeps_arrays A s s1"
proof (cases "is_function nr")
  case False
  with assms(2,3) show ?thesis by (auto simp: replaceReducer_with_def)
next
  case True
  let ?s0 = "s\<lparr>currentReducer := nr, objects := objects s @ [literal [(''type'', VStr INIT)]]\<rparr>"
  have i0: "snapshot_safe A ?s0" using assms(2) by (simp add: snapshot_safe_def)
  have k0: "keeps_arrays A s ?s0" by (simp add: keeps_arrays_def)
  from assms(3) True obtain r0 where
    d: "dispatch_with cl m (VObj (length (objects s))) ?s0 = Some (r0, s1)"
    by (auto simp: replaceReducer_with_def alloc_def split: option.splits sum.splits prod.splits)
  from dispatch_with_good[OF assms(1) i0 d] k0 show ?thesis by (blast intro: keeps_arrays_trans)
qed

lemma api_good:
  assumes "good_call cl" and "snapshot_safe A s" and "api cl m c s = Some (r, s1)"
  shows "snapshot_safe A s1 \<and> keeps_arrays A s s1"
proof (cases c)
  case (Dispatch action)
  with assms dispatch_with_good[OF assms(1,2), of m action r s1] show ?thesis by (simp add: api_def)
next
  case GetState
  with assms show ?thesis by (auto simp: api_def getState_def split: if_splits)
next
  case (Subscribe l)
  with assms subscribe_good[OF assms(2), of l r s1] show ?thesis by (simp add: api_def)
next
  case (Unsubscribe i)
  with assms unsubscribe_good[OF assms(2), of i r s1] show ?thesis by (simp add: api_def)
next
  case (ReplaceReducer nr)
  with assms replaceReducer_with_good[OF assms(1,2), of m nr r s1] show ?thesis by (simp add: api_def)
next
  case (New ob)
  with assms show ?thesis by (auto simp: api_def alloc_def snapshot_safe_def keeps_arrays_def)
next
  case (Prop v key)
  with assms show ?thesis by (auto simp: api_def)
qed

lemma exec_good:
  assumes "good_call cl"
  shows "snapshot_safe A s \<Longrightarrow> exec (api cl m) P s = Some (r, s1) \<Longrightarrow> snapshot_safe A s1 \<and> keeps_arrays A s s1"
proof (induction P arbitrary: s)
  case (Call c k)
  from Call.prems(2) obtain r0 s0 where a: "api cl m c s = Some (r0, s0)"
    and e: "exec (api cl m) (k r0) s0 = Some (r, s1)"
    by (auto split: option.splits)
  from api_good[OF assms Call.prems(1) a] have g: "snapshot_safe A s0 \<and> keeps_arrays A s s0" .
  from Call.IH[OF _ _ e] g show ?case by (blast intro: keeps_arrays_trans)
qed auto

lemma call_good: "good_call (call \<rho> n)"
proof (induction n)
  case 0
  show ?case by (simp add: good_call_def)
next
  case (Suc n)
  show ?case unfolding good_call_def
  proof (intro allI impI)
    fix A f args s r s1
    assume i: "snapshot_safe A s" and c: "call \<rho> (Suc n) f args s = Some (r, s1)"
    show "snapshot_safe A s1 \<and> keeps_arrays A s s1"
    proof (cases f)
      case (VFun j)
      with c exec_good[OF Suc i, of n "\<rho> j args" r s1] show ?thesis by simp
    next
      case (VUnsub j)
      with c unsubscribe_good[OF i, of j r s1] show ?thesis by auto
    qed (use c i in auto)
  qed
qed

lemma notify_is_frozen:
  assumes "good_call cl"
  shows "snapshot_safe {a} s \<Longrightarrow> length (array_at s a) \<le> i + m \<Longrightarrow>
         notify cl m a i s = notify_frozen cl (drop i (array_at s a)) s"
proof (induction m arbitrary: i s)
  case 0
  then show ?case by simp
next
  case (Suc m)
  show ?case
  proof (cases "i < length (array_at s a)")
    case False
    then show ?thesis by simp
  next
    case True
    let ?l = "array_at s a ! i"
    let ?s0 = "s\<lparr>trace := trace s @ [Notified ?l]\<rparr>"
    have dr: "drop i (array_at s a) = ?l # drop (Suc i) (array_at s a)"
      using True by (simp add: Cons_nth_drop_Suc)
    have i0: "snapshot_safe {a} ?s0" using Suc.prems(1) by simp
    show ?thesis
    proof (cases "cl ?l [] ?s0")
      case None
      with True dr show ?thesis by simp
    next
      case (Some p)
      obtain r0 s0 where p: "p = (r0, s0)" by (cases p)
      from assms i0 Some p have g: "snapshot_safe {a} s0 \<and> keeps_arrays {a} ?s0 s0" unfolding good_call_def by blast
      have av: "a < length (arrays s)" "a < length (arrays s0)"
        using Suc.prems(1) g by (auto simp: snapshot_safe_def)
      have same: "array_at s0 a = array_at s a"
        using g av by (simp add: keeps_arrays_def array_at_def)
      show ?thesis
      proof (cases r0)
        case (Inl e)
        with True dr Some p show ?thesis by simp
      next
        case (Inr v)
        have "notify cl m a (Suc i) s0 = notify_frozen cl (drop (Suc i) (array_at s0 a)) s0"
          using Suc.IH[of s0 "Suc i"] g Suc.prems(2) same by simp
        with True dr Some p Inr same show ?thesis by simp
      qed
    qed
  qed
qed

subsection \<open>A reducer that raises\<close>

lemma dispatch_with_trace:
  assumes "good_call cl" and "\<not> isDispatching s" and "isPlainObject (objects s) action"
      and "get_prop (objects s) action ''type'' \<noteq> Inr VUndef"
      and "dispatch_with cl m action s = Some (r, s1)"
  shows "\<exists>t. trace s1 = trace s @ Reduced (currentState s) action # t"
proof -
  let ?s0 = "s\<lparr>isDispatching := True, trace := trace s @ [Reduced (currentState s) action]\<rparr>"
  have i0: "snapshot_safe {} ?s0" by (simp add: snapshot_safe_def)
  from assms(2-5) obtain r0 s0 where
    c: "cl (currentReducer s) [currentState s, action] ?s0 = Some (r0, s0)"
    by (auto simp: dispatch_with_def split: option.splits)
  from assms(1) i0 c have g: "keeps_arrays {} ?s0 s0" unfolding good_call_def by blast
  then obtain t0 where t0: "trace s0 = trace s @ Reduced (currentState s) action # t0"
    by (auto simp: keeps_arrays_def)
  show ?thesis
  proof (cases r0)
    case (Inl e)
    with assms(2-5) c have "s1 = s0\<lparr>isDispatching := False\<rparr>" by (simp add: dispatch_with_def)
    with t0 show ?thesis by simp
  next
    case (Inr v)
    let ?s3 = "s0\<lparr>currentState := v, isDispatching := False, currentListeners := nextListeners s0\<rparr>"
    have i3: "snapshot_safe {} ?s3" by (simp add: snapshot_safe_def)
    from assms(2-5) c Inr obtain r4 where
      n: "notify cl m (nextListeners s0) 0 ?s3 = Some (r4, s1)"
      by (auto simp: dispatch_with_def Let_def split: option.splits sum.splits prod.splits)
    from notify_good[OF assms(1) i3 n] obtain t1 where "trace s1 = trace ?s3 @ t1"
      by (auto simp: keeps_arrays_def)
    with t0 show ?thesis by simp
  qed
qed

lemma dispatch_not_reentrant:
  assumes "\<not> isDispatching s"
  shows "dispatch \<rho> n b s \<noteq> Some (Inl DispatchWhileDispatching, s)"
proof (cases "isPlainObject (objects s) b \<and> get_prop (objects s) b ''type'' \<noteq> Inr VUndef")
  case False
  then show ?thesis by (auto simp: dispatch_def dispatch_with_def)
next
  case True
  show ?thesis
  proof
    assume "dispatch \<rho> n b s = Some (Inl DispatchWhileDispatching, s)"
    then have "dispatch_with (call \<rho> n) n b s = Some (Inl DispatchWhileDispatching, s)"
      by (simp add: dispatch_def)
    from dispatch_with_trace[OF call_good assms _ _ this] True show False by auto
  qed
qed

text \<open>
  Claim C6. When the reducer raises an error \<open>e\<close> on a valid action, \<open>dispatch\<close> returns
  that same error, the state of the store is the one before, the trace has the call of the
  reducer and no call of a listener, and \<open>isDispatching\<close> is false again: \<open>getState\<close>
  returns the state, and no later \<open>dispatch\<close> is refused as reentrant.
\<close>

theorem failing_reducer_leaves_store:
  assumes "\<not> isDispatching s"
      and "isPlainObject (objects s) action"
      and "get_prop (objects s) action ''type'' \<noteq> Inr VUndef"
      and "call \<rho> n (currentReducer s) [currentState s, action]
             (s\<lparr>isDispatching := True, trace := trace s @ [Reduced (currentState s) action]\<rparr>)
           = Some (Inl e, sa)"
  shows "dispatch \<rho> n action s = Some (Inl e, sa\<lparr>isDispatching := False\<rparr>)
       \<and> currentState (sa\<lparr>isDispatching := False\<rparr>) = currentState s
       \<and> trace (sa\<lparr>isDispatching := False\<rparr>) = trace s @ [Reduced (currentState s) action]
       \<and> \<not> isDispatching (sa\<lparr>isDispatching := False\<rparr>)
       \<and> getState (sa\<lparr>isDispatching := False\<rparr>) = (Inr (currentState s), sa\<lparr>isDispatching := False\<rparr>)
       \<and> dispatch \<rho> n b (sa\<lparr>isDispatching := False\<rparr>) \<noteq>
            Some (Inl DispatchWhileDispatching, sa\<lparr>isDispatching := False\<rparr>)"
proof -
  let ?s0 = "s\<lparr>isDispatching := True, trace := trace s @ [Reduced (currentState s) action]\<rparr>"
  have "isDispatching ?s0" by simp
  from call_dispatching[OF this assms(4)] have st: "same_transition ?s0 sa" .
  have d: "dispatch \<rho> n action s = Some (Inl e, sa\<lparr>isDispatching := False\<rparr>)"
    using assms by (simp add: dispatch_def dispatch_with_def)
  have nr: "dispatch \<rho> n b (sa\<lparr>isDispatching := False\<rparr>) \<noteq>
            Some (Inl DispatchWhileDispatching, sa\<lparr>isDispatching := False\<rparr>)"
    by (rule dispatch_not_reentrant) simp
  from d st nr show ?thesis by (simp add: same_transition_def getState_def)
qed

theorem failing_reducer_leaves_store_witness:
  "dispatch example_bodies (Suc 0) (VObj 2) (initial_store (VFun 5) (VNum 7) actions_world)
     = Some (Inl (Thrown (VStr ''boom'')),
             (initial_store (VFun 5) (VNum 7) actions_world)
               \<lparr>trace := [Reduced (VNum 7) (VObj 2)]\<rparr>)
   \<and> getState ((initial_store (VFun 5) (VNum 7) actions_world)
                  \<lparr>trace := [Reduced (VNum 7) (VObj 2)]\<rparr>)
     = (Inr (VNum 7), (initial_store (VFun 5) (VNum 7) actions_world)
                        \<lparr>trace := [Reduced (VNum 7) (VObj 2)]\<rparr>)
   \<and> map_option fst (dispatch example_bodies (Suc 0) (VObj 0)
        ((initial_store (VFun 5) (VNum 7) actions_world)\<lparr>trace := [Reduced (VNum 7) (VObj 2)]\<rparr>))
     = Some (Inr (VObj 0))"
proof -
  let ?s = "initial_store (VFun 5) (VNum 7) actions_world"
  let ?sa = "?s\<lparr>isDispatching := True, trace := [Reduced (VNum 7) (VObj 2)]\<rparr>"
  have a: "\<not> isDispatching ?s" by (simp add: initial_store_def)
  have b: "isPlainObject (objects ?s) (VObj 2)"
    by (simp add: initial_store_def actions_world_def isPlainObject_def literal_def)
  have c: "get_prop (objects ?s) (VObj 2) ''type'' \<noteq> Inr VUndef"
    by (simp add: initial_store_def actions_world_def literal_def)
  have d: "call example_bodies (Suc 0) (currentReducer ?s) [currentState ?s, VObj 2]
             (?s\<lparr>isDispatching := True, trace := trace ?s @ [Reduced (currentState ?s) (VObj 2)]\<rparr>)
           = Some (Inl (Thrown (VStr ''boom'')), ?sa)"
    by (simp add: initial_store_def actions_world_def literal_def example_bodies_def failing_def
          api_def)
  have sa: "?sa\<lparr>isDispatching := False\<rparr> = ?s\<lparr>trace := [Reduced (VNum 7) (VObj 2)]\<rparr>"
    by (simp add: initial_store_def)
  have cs: "currentState ?s = VNum 7" by (simp add: initial_store_def)
  have o: "map_option fst (dispatch example_bodies (Suc 0) (VObj 0)
        (?s\<lparr>trace := [Reduced (VNum 7) (VObj 2)]\<rparr>)) = Some (Inr (VObj 0))"
    by (simp add: dispatch_def dispatch_with_def initial_store_def actions_world_def
          isPlainObject_def literal_def example_bodies_def failing_def api_def array_at_def)
  from failing_reducer_leaves_store[OF a b c d, of "VObj 0"] o show ?thesis
    unfolding sa cs by simp
qed

subsection \<open>The notification pass\<close>

lemma subscribe_appends:
  assumes "is_function l" and "\<not> isDispatching t" and "nextListeners t < length (arrays t)"
  shows "array_at (snd (subscribe l t)) (nextListeners (snd (subscribe l t))) =
           array_at t (nextListeners t) @ [l]"
  using assms
  by (simp add: subscribe_def Let_def push_next_def ensureCanMutateNextListeners_def array_at_def
        nth_append)

lemma listening_store_eq:
  "listening_store =
     \<lparr>objects = objects actions_world, warned = [],
      currentReducer = VFun 0, currentState = VNum 0,
      arrays = [[], [VFun 3]], currentListeners = 0, nextListeners = Suc 0,
      isDispatching = False, subscriptions = [(VFun 3, True)], trace = []\<rparr>"
  by (simp add: listening_store_def subscribe_def initial_store_def Let_def push_next_def
        ensureCanMutateNextListeners_def array_at_def actions_world_def)

lemma dispatch_is_frozen_pass:
  assumes "\<not> isDispatching s"
      and "isPlainObject (objects s) action"
      and "get_prop (objects s) action ''type'' \<noteq> Inr VUndef"
      and "nextListeners s < length (arrays s)"
      and "call \<rho> n (currentReducer s) [currentState s, action]
             (s\<lparr>isDispatching := True, trace := trace s @ [Reduced (currentState s) action]\<rparr>)
           = Some (Inr v, sa)"
      and "length (array_at s (nextListeners s)) \<le> n"
  shows "dispatch \<rho> n action s =
           (case notify_frozen (call \<rho> n) (array_at s (nextListeners s))
                   (sa\<lparr>currentState := v, isDispatching := False,
                       currentListeners := nextListeners s\<rparr>) of
              None \<Rightarrow> None
            | Some (Inl e, sb) \<Rightarrow> Some (Inl e, sb)
            | Some (Inr u, sb) \<Rightarrow> Some (Inr action, sb))"
proof -
  let ?s0 = "s\<lparr>isDispatching := True, trace := trace s @ [Reduced (currentState s) action]\<rparr>"
  have "isDispatching ?s0" by simp
  from call_dispatching[OF this assms(5)] have st: "same_transition ?s0 sa" .
  let ?a = "nextListeners s"
  let ?s3 = "sa\<lparr>currentState := v, isDispatching := False, currentListeners := ?a\<rparr>"
  have nx: "nextListeners sa = ?a" and ar: "arrays sa = arrays s"
    using st by (simp_all add: same_transition_def)
  have i3: "snapshot_safe {?a} ?s3" using assms(4) nx ar by (simp add: snapshot_safe_def)
  have arr: "array_at ?s3 ?a = array_at s ?a" using ar by (simp add: array_at_def)
  have "notify (call \<rho> n) n ?a 0 ?s3 = notify_frozen (call \<rho> n) (drop 0 (array_at ?s3 ?a)) ?s3"
    by (rule notify_is_frozen[OF call_good i3]) (use assms(6) arr in simp)
  then have nf: "notify (call \<rho> n) n ?a 0 ?s3 = notify_frozen (call \<rho> n) (array_at s ?a) ?s3"
    using arr by simp
  show ?thesis
    using assms(1,2,3,5) nx nf
    by (simp add: dispatch_def dispatch_with_def Let_def)
qed

text \<open>
  Claim C5. The notification pass of a dispatch calls, in order and once for each position,
  the listeners that \<open>nextListeners\<close> held when the dispatch began (the reducer cannot
  change them), until one of them raises: the loop of the source, which reads the live
  array in every round, is the pass over that frozen list, whatever the listeners
  subscribe, unsubscribe or dispatch meanwhile. So a listener subscribed during the pass
  is not called in it, and a listener of the list that unsubscribes itself is still called
  at its position. A subscription made outside a reducer puts the listener at the end of
  the list that the next dispatch runs over.
\<close>

theorem pass_runs_over_snapshot:
  assumes "\<not> isDispatching s"
      and "isPlainObject (objects s) action"
      and "get_prop (objects s) action ''type'' \<noteq> Inr VUndef"
      and "nextListeners s < length (arrays s)"
      and "call \<rho> n (currentReducer s) [currentState s, action]
             (s\<lparr>isDispatching := True, trace := trace s @ [Reduced (currentState s) action]\<rparr>)
           = Some (Inr v, sa)"
      and "length (array_at s (nextListeners s)) \<le> n"
  shows "dispatch \<rho> n action s =
           (case notify_frozen (call \<rho> n) (array_at s (nextListeners s))
                   (sa\<lparr>currentState := v, isDispatching := False,
                       currentListeners := nextListeners s\<rparr>) of
              None \<Rightarrow> None
            | Some (Inl e, sb) \<Rightarrow> Some (Inl e, sb)
            | Some (Inr u, sb) \<Rightarrow> Some (Inr action, sb))
       \<and> (is_function l \<and> \<not> isDispatching t \<and> nextListeners t < length (arrays t) \<longrightarrow>
            array_at (snd (subscribe l t)) (nextListeners (snd (subscribe l t))) =
              array_at t (nextListeners t) @ [l])"
  using dispatch_is_frozen_pass[OF assms] subscribe_appends[of l t] by blast

theorem pass_runs_over_snapshot_witness:
  "map_option (\<lambda>(r, s). (r, trace s, array_at s (nextListeners s)))
     (dispatch example_bodies (Suc 0) (VObj 0) listening_store)
   = Some (Inr (VObj 0), [Reduced (VNum 0) (VObj 0), Notified (VFun 3)], [VFun 4])
   \<and> map_option (\<lambda>(r, s). (r, trace s))
       (Option.bind (dispatch example_bodies (Suc 0) (VObj 0) listening_store)
          (\<lambda>(r, s). dispatch example_bodies (Suc 0) (VObj (Suc 0)) s))
   = Some (Inr (VObj (Suc 0)),
           [Reduced (VNum 0) (VObj 0), Notified (VFun 3),
            Reduced (VNum 0) (VObj (Suc 0)), Notified (VFun 4)])"
proof -
  let ?s = listening_store
  let ?sa = "?s\<lparr>isDispatching := True, trace := [Reduced (VNum 0) (VObj 0)]\<rparr>"
  have a: "\<not> isDispatching ?s" by (simp add: listening_store_eq)
  have b: "isPlainObject (objects ?s) (VObj 0)"
    by (simp add: listening_store_eq actions_world_def isPlainObject_def literal_def)
  have c: "get_prop (objects ?s) (VObj 0) ''type'' \<noteq> Inr VUndef"
    by (simp add: listening_store_eq actions_world_def literal_def)
  have n: "nextListeners ?s < length (arrays ?s)" by (simp add: listening_store_eq)
  have d: "call example_bodies (Suc 0) (currentReducer ?s) [currentState ?s, VObj 0]
             (?s\<lparr>isDispatching := True, trace := trace ?s @ [Reduced (currentState ?s) (VObj 0)]\<rparr>)
           = Some (Inr (VNum 0), ?sa)"
    by (simp add: listening_store_eq actions_world_def literal_def example_bodies_def counter_def
          api_def)
  have l: "length (array_at ?s (nextListeners ?s)) \<le> Suc 0"
    by (simp add: listening_store_eq array_at_def)
  have first: "dispatch example_bodies (Suc 0) (VObj 0) listening_store =
      Some (Inr (VObj 0),
        \<lparr>objects = objects actions_world, warned = [],
         currentReducer = VFun 0, currentState = VNum 0,
         arrays = [[], [VFun 3], [VFun 4]], currentListeners = Suc 0, nextListeners = 2,
         isDispatching = False, subscriptions = [(VFun 3, False), (VFun 4, True)],
         trace = [Reduced (VNum 0) (VObj 0), Notified (VFun 3)]\<rparr>)"
    unfolding pass_runs_over_snapshot[OF a b c n d l, THEN conjunct1]
    by (simp add: listening_store_eq array_at_def example_bodies_def listener_one_def api_def
          subscribe_def unsubscribe_def Let_def push_next_def ensureCanMutateNextListeners_def
          splice1_def)
  show ?thesis
    unfolding first
    by (simp add: array_at_def dispatch_def dispatch_with_def actions_world_def isPlainObject_def
          literal_def example_bodies_def counter_def listener_two_def api_def)
qed

section \<open>Properties of applyMiddleware\<close>

lemma compose_Cons: "compose (f # fs) x = f (compose fs x)"
  by (cases fs) simp_all

lemma loggers_compose:
  "raw action (s\<lparr>trace := trace s @ map (\<lambda>name. Note (name @ '' in'')) names\<rparr>) = Some (r, sa) \<Longrightarrow>
   compose (map (\<lambda>name. logger name mapi) names) raw action s =
     Some (r, sa\<lparr>trace := trace sa @ map (\<lambda>name. Note (name @ '' out'')) (rev names)\<rparr>)"
proof (induction names arbitrary: s)
  case Nil
  then show ?case by simp
next
  case (Cons name names)
  let ?s = "s\<lparr>trace := trace s @ [Note (name @ '' in'')]\<rparr>"
  have "raw action (?s\<lparr>trace := trace ?s @ map (\<lambda>name. Note (name @ '' in'')) names\<rparr>) = Some (r, sa)"
    using Cons.prems by simp
  from Cons.IH[OF this] show ?case
    by (simp add: compose_Cons logger_def)
qed

lemma compose_is_foldr:
  "compose (map (\<lambda>m. m mapi) ms) raw = foldr (\<lambda>middleware next. middleware mapi next) ms raw"
  by (induction ms) (simp_all add: compose_Cons)

text \<open>
  Claim C7. For every list of middlewares, the store that \<open>applyMiddleware\<close> returns is the
  base store with \<open>dispatch\<close> replaced, every other capability as it was; its \<open>dispatch\<close> is
  the first middleware's transform applied to the second's, and so on, the last applied to
  the raw \<open>dispatch\<close> of the store; the \<open>dispatch\<close> of the API that each middleware got is
  that whole pipeline again (one level of re-entry less). For logging middlewares the
  trace shows it: the notes of entering in the order supplied, then what the raw dispatch
  does, then the notes of leaving in reverse order.
\<close>

theorem middleware_pipeline_order:
  assumes "create reducer preloadedState enhancer w = Some (Inr (st, s))"
  shows "applyMiddleware (Suc d) middlewares create reducer preloadedState enhancer w
           = Some (Inr (st\<lparr>dispatch_of :=
                             foldr (\<lambda>middleware next.
                                      middleware \<lparr>api_getState = getState_of st,
                                                  api_dispatch = pipeline d middlewares st\<rparr> next)
                               middlewares (dispatch_of st)\<rparr>, s))
       \<and> applyMiddleware d middlewares create reducer preloadedState enhancer w
           = Some (Inr (st\<lparr>dispatch_of := pipeline d middlewares st\<rparr>, s))
       \<and> (dispatch_of st action (t\<lparr>trace := trace t @ map (\<lambda>name. Note (name @ '' in'')) names\<rparr>)
            = Some (r, ta) \<longrightarrow>
          pipeline (Suc d) (map logger names) st action t
            = Some (r, ta\<lparr>trace := trace ta @ map (\<lambda>name. Note (name @ '' out'')) (rev names)\<rparr>))"
proof -
  have log: "pipeline (Suc d) (map logger names) st action t
            = Some (r, ta\<lparr>trace := trace ta @ map (\<lambda>name. Note (name @ '' out'')) (rev names)\<rparr>)"
    if "dispatch_of st action (t\<lparr>trace := trace t @ map (\<lambda>name. Note (name @ '' in'')) names\<rparr>)
            = Some (r, ta)"
    using loggers_compose[where raw = "dispatch_of st" and action = action and s = t
            and names = names, OF that]
    by (simp add: Let_def comp_def)
  show ?thesis using assms log by (simp add: applyMiddleware_def compose_is_foldr Let_def)
qed

lemma example_created:
  "createStore example_bodies no_enhancers (Suc (Suc 0)) (VFun 0) VUndef VUndef actions_world =
     Some (Inr (store_handle example_bodies (Suc 0),
       \<lparr>objects = objects actions_world @ [literal [(''type'', VStr INIT)]], warned = [],
        currentReducer = VFun 0, currentState = VNum 0,
        arrays = [[]], currentListeners = 0, nextListeners = 0,
        isDispatching = False, subscriptions = [], trace = [Reduced VUndef (VObj 3)]\<rparr>))"
  by (simp add: initial_store_def alloc_def actions_world_def dispatch_def dispatch_with_def
        isPlainObject_def literal_def example_bodies_def counter_def api_def array_at_def INIT_def)

theorem middleware_pipeline_order_witness:
  "map_option (\<lambda>(r, t). (r, trace t))
     (case applyMiddleware (Suc 0) [logger ''mid1'', logger ''mid2'']
             (createStore example_bodies no_enhancers (Suc (Suc 0)))
             (VFun 0) VUndef VUndef actions_world of
        Some (Inr (stm, s)) \<Rightarrow> dispatch_of stm (VObj 0) s
      | _ \<Rightarrow> None)
   = Some (Inr (VObj 0),
           [Reduced VUndef (VObj 3), Note ''mid1 in'', Note ''mid2 in'',
            Reduced (VNum 0) (VObj 0), Note ''mid2 out'', Note ''mid1 out''])
   \<and> map_option (\<lambda>(r, t). (r, trace t))
     (case applyMiddleware (Suc (Suc 0)) [logger ''mid1'', redirect]
             (createStore example_bodies no_enhancers (Suc (Suc 0)))
             (VFun 0) VUndef VUndef actions_world of
        Some (Inr (stm, s)) \<Rightarrow> dispatch_of stm (VObj 0) s
      | _ \<Rightarrow> None)
   = Some (Inr (VObj (Suc 0)),
           [Reduced VUndef (VObj 3), Note ''mid1 in'', Note ''mid1 in'',
            Reduced (VNum 0) (VObj (Suc 0)), Note ''mid1 out'', Note ''mid1 out''])"
proof -
  note a = middleware_pipeline_order[where create = "createStore example_bodies no_enhancers (Suc (Suc 0))"
             and reducer = "VFun 0" and preloadedState = VUndef and enhancer = VUndef
             and w = actions_world and d = 0
             and middlewares = "[logger ''mid1'', logger ''mid2'']", OF example_created]
  note b = middleware_pipeline_order[where create = "createStore example_bodies no_enhancers (Suc (Suc 0))"
             and reducer = "VFun 0" and preloadedState = VUndef and enhancer = VUndef
             and w = actions_world and d = "Suc 0"
             and middlewares = "[logger ''mid1'', redirect]", OF example_created]
  show ?thesis
    unfolding a[THEN conjunct1] b[THEN conjunct1]
    by (simp add: logger_def redirect_def store_handle_def dispatch_def dispatch_with_def
          actions_world_def isPlainObject_def literal_def example_bodies_def counter_def api_def
          array_at_def nth_append Let_def compose_Cons)
qed

end
